theory Spec2Isabelle
  imports Main "HOL-Library.AList"
begin

section \<open>Data model\<close>

text \<open>
  The engine of \<^verbatim>\<open>background.js\<close> keeps a browser window's tabs and a bookmark
  folder's children consistent. Its own variables (\<^verbatim>\<open>windowMappings\<close>,
  \<^verbatim>\<open>pinnedTabsByFolder\<close>, \<^verbatim>\<open>folderLastUsed\<close>, \<^verbatim>\<open>isSyncing\<close>,
  \<^verbatim>\<open>pendingSyncs\<close>) and the browser it talks to (bookmark tree, windows,
  \<^verbatim>\<open>storage.local\<close>) are the fields of one state record that every operation
  takes and returns.

  Identifiers (window, tab, bookmark and folder ids) are opaque and only compared for
  equality; they are natural numbers here. A bookmark node without \<^verbatim>\<open>url\<close> (a
  subfolder or a separator) has \<open>bm_url = None\<close>. A tab always carries a \<^verbatim>\<open>url\<close>
  string (the extension holds the \<^verbatim>\<open>tabs\<close> permission); the empty string is
  JavaScript's falsy URL.
\<close>

record bookmark =
  bm_id :: nat
  bm_title :: string
  bm_url :: "string option"

record tab =
  tab_id :: nat
  tab_url :: string
  tab_title :: string
  tab_pinned :: bool

record mapping =
  folderId :: nat
  folderTitle :: string

text \<open>
  \<^verbatim>\<open>windowMappings\<close> is a JavaScript object keyed by window id: an association
  list with one entry per key. \<^verbatim>\<open>pendingSyncs\<close> is a JavaScript \<^verbatim>\<open>Set\<close>, which
  iterates in insertion order: a list without repetitions, new members at the end.
  A pinned-URL \<^verbatim>\<open>Set\<close> is only tested for membership and replaced: a HOL set.
\<close>

record state =
  windowMappings :: "(nat \<times> mapping) list"
  pinnedTabsByFolder :: "nat \<rightharpoonup> string set"
  folderLastUsed :: "nat \<rightharpoonup> nat"
  isSyncing :: bool
  pendingSyncs :: "nat list"
  bookmarks :: "nat \<rightharpoonup> bookmark list"
  windows :: "nat \<rightharpoonup> tab list"
  stored_mappings :: "(nat \<times> mapping) list"
  stored_pinned :: "nat \<rightharpoonup> string set"
  stored_lastUsed :: "nat \<rightharpoonup> nat"
  nextId :: nat
  clock :: nat
  pageTitle :: "string \<Rightarrow> string"
  homeUrl :: string
  calls :: nat
  faults :: "nat set"

text \<open>
  The browser side of the state: \<open>bookmarks f\<close> is the ordered list of children of
  folder \<open>f\<close> (\<open>None\<close> when no such folder exists), \<open>windows w\<close> the ordered tabs of
  window \<open>w\<close>; \<open>stored_*\<close> is the content of \<^verbatim>\<open>storage.local\<close>; \<open>nextId\<close> is
  the supply of fresh identifiers; \<open>clock\<close> is \<^verbatim>\<open>Date.now()\<close>; \<open>pageTitle u\<close> is
  the title the browser gives a tab opened on \<open>u\<close>, and \<open>homeUrl\<close> the page a new window
  starts with. \<open>calls\<close> counts the browser calls made so far and \<open>faults\<close> is the set
  of call numbers the browser rejects: any call of a pass can fail.
\<close>

datatype error = Rejected nat

type_synonym 'a io = "state \<Rightarrow> (error + 'a) \<times> state"

definition ret :: "'a \<Rightarrow> 'a io" where
  "ret x s = (Inr x, s)"

definition bind :: "'a io \<Rightarrow> ('a \<Rightarrow> 'b io) \<Rightarrow> 'b io" where
  "bind m f s = (case m s of (Inl e, s') \<Rightarrow> (Inl e, s') | (Inr x, s') \<Rightarrow> f x s')"

text \<open>Reading and assigning the script's variables.\<close>

definition get :: "(state \<Rightarrow> 'a) \<Rightarrow> 'a io" where
  "get g s = (Inr (g s), s)"

definition modify :: "(state \<Rightarrow> state) \<Rightarrow> unit io" where
  "modify g s = (Inr (), g s)"

text \<open>
  Every \<^verbatim>\<open>await browser.*\<close> call goes through \<open>api\<close>: the call is counted, and it
  throws (the promise rejects) when the fault set says so or when the browser cannot
  perform the operation (\<open>None\<close>). The error carries the number of the failing call.
\<close>

definition api :: "(state \<Rightarrow> ('a \<times> state) option) \<Rightarrow> 'a io" where
  "api op s =
     (let n = calls s; s1 = s\<lparr>calls := Suc n\<rparr> in
      if n \<in> faults s then (Inl (Rejected n), s1)
      else case op s1 of
             None \<Rightarrow> (Inl (Rejected n), s1)
           | Some (x, s2) \<Rightarrow> (Inr x, s2))"

section \<open>The browser\<close>

text \<open>
  \<^verbatim>\<open>url.startsWith(p)\<close>, and the test both reconcilers use to skip special pages.
\<close>

definition startsWith :: "string \<Rightarrow> string \<Rightarrow> bool" where
  "startsWith s p = (take (length p) s = p)"


text \<open>
  The bookmark store. An index beyond the end appends, and a move places the entry at
  the given final index of its folder, as Firefox does. \<open>take\<close> and \<open>drop\<close> clamp
  the index by themselves.
\<close>

definition insert_at :: "nat \<Rightarrow> 'a \<Rightarrow> 'a list \<Rightarrow> 'a list" where
  "insert_at i x xs = take i xs @ x # drop i xs"

definition bookmarksGetSubTree :: "nat \<Rightarrow> (nat \<times> bookmark) list io" where
  "bookmarksGetSubTree f =
     api (\<lambda>s. case bookmarks s f of
                 None \<Rightarrow> None
               | Some bs \<Rightarrow> Some (enumerate 0 bs, s))"

definition bookmarksCreate :: "nat \<Rightarrow> string \<Rightarrow> string \<Rightarrow> nat \<Rightarrow> bookmark io" where
  "bookmarksCreate f title url index =
     api (\<lambda>s. case bookmarks s f of
                 None \<Rightarrow> None
               | Some bs \<Rightarrow>
                   let b = \<lparr>bm_id = nextId s, bm_title = title, bm_url = Some url\<rparr> in
                   Some (b, s\<lparr>bookmarks := (bookmarks s)(f \<mapsto> insert_at index b bs),
                              nextId := Suc (nextId s)\<rparr>))"

definition bookmarksUpdate :: "nat \<Rightarrow> nat \<Rightarrow> string \<Rightarrow> unit io" where
  "bookmarksUpdate f i title =
     api (\<lambda>s. case bookmarks s f of
                 None \<Rightarrow> None
               | Some bs \<Rightarrow>
                   if i \<in> bm_id ` set bs
                   then Some ((), s\<lparr>bookmarks := (bookmarks s)(f \<mapsto>
                          map (\<lambda>b. if bm_id b = i then b\<lparr>bm_title := title\<rparr> else b) bs)\<rparr>)
                   else None)"

definition bookmarksMove :: "nat \<Rightarrow> nat \<Rightarrow> nat \<Rightarrow> unit io" where
  "bookmarksMove f i index =
     api (\<lambda>s. case bookmarks s f of
                 None \<Rightarrow> None
               | Some bs \<Rightarrow>
                   (case find (\<lambda>b. bm_id b = i) bs of
                      None \<Rightarrow> None
                    | Some b \<Rightarrow>
                        Some ((), s\<lparr>bookmarks := (bookmarks s)(f \<mapsto>
                          insert_at index b (filter (\<lambda>c. bm_id c \<noteq> i) bs))\<rparr>)))"

definition bookmarksRemove :: "nat \<Rightarrow> nat \<Rightarrow> unit io" where
  "bookmarksRemove f i =
     api (\<lambda>s. case bookmarks s f of
                 None \<Rightarrow> None
               | Some bs \<Rightarrow>
                   if i \<in> bm_id ` set bs
                   then Some ((), s\<lparr>bookmarks := (bookmarks s)(f \<mapsto>
                          filter (\<lambda>c. bm_id c \<noteq> i) bs)\<rparr>)
                   else None)"

text \<open>
  The store finds an entry by its id alone; every id a pass handles is a child of the
  synced folder, so the model is told the folder.
\<close>

text \<open>\<^verbatim>\<open>storage.local.set\<close> for the three keys.\<close>

definition saveWindowMappings :: "unit io" where
  "saveWindowMappings = api (\<lambda>s. Some ((), s\<lparr>stored_mappings := windowMappings s\<rparr>))"

definition savePinnedTabs :: "unit io" where
  "savePinnedTabs = api (\<lambda>s. Some ((), s\<lparr>stored_pinned := pinnedTabsByFolder s\<rparr>))"

definition updateFolderLastUsed :: "nat \<Rightarrow> unit io" where
  "updateFolderLastUsed f =
     bind (modify (\<lambda>s. s\<lparr>folderLastUsed := (folderLastUsed s)(f \<mapsto> clock s)\<rparr>))
       (\<lambda>_. api (\<lambda>s. Some ((), s\<lparr>stored_lastUsed := folderLastUsed s\<rparr>)))"


text \<open>
  The tab strip. Firefox keeps pinned tabs in front of unpinned ones (the comment in
  \<^verbatim>\<open>openFolderAsNewWindow\<close>: "Firefox will automatically order pinned tabs at the
  beginning"): after a tab is created, moved or (un)pinned the strip is the stable
  partition \<open>pinned_first\<close> of what a plain list would hold. A tab created without an
  index goes to the end; closing a tab keeps the order of the others. A tab opened on
  \<open>url\<close> shows \<open>url\<close> with the title \<open>pageTitle s url\<close>.
\<close>

definition pinned_first :: "tab list \<Rightarrow> tab list" where
  "pinned_first ts = filter tab_pinned ts @ filter (\<lambda>t. \<not> tab_pinned t) ts"

definition tabsQuery :: "nat \<Rightarrow> (nat \<times> tab) list io" where
  "tabsQuery w =
     api (\<lambda>s. Some (enumerate 0 (case windows s w of None \<Rightarrow> [] | Some ts \<Rightarrow> ts), s))"

definition tabsCreate :: "nat \<Rightarrow> string \<Rightarrow> bool \<Rightarrow> nat option \<Rightarrow> tab io" where
  "tabsCreate w url pinned index =
     api (\<lambda>s. case windows s w of
                 None \<Rightarrow> None
               | Some ts \<Rightarrow>
                   let t = \<lparr>tab_id = nextId s, tab_url = url, tab_title = pageTitle s url,
                            tab_pinned = pinned\<rparr> in
                   Some (t, s\<lparr>windows := (windows s)(w \<mapsto> pinned_first
                                (case index of None \<Rightarrow> ts @ [t] | Some i \<Rightarrow> insert_at i t ts)),
                              nextId := Suc (nextId s)\<rparr>))"

definition tabsUpdate :: "nat \<Rightarrow> nat \<Rightarrow> bool \<Rightarrow> unit io" where
  "tabsUpdate w i pinned =
     api (\<lambda>s. case windows s w of
                 None \<Rightarrow> None
               | Some ts \<Rightarrow>
                   if i \<in> tab_id ` set ts
                   then Some ((), s\<lparr>windows := (windows s)(w \<mapsto> pinned_first
                          (map (\<lambda>t. if tab_id t = i then t\<lparr>tab_pinned := pinned\<rparr> else t) ts))\<rparr>)
                   else None)"

definition tabsMove :: "nat \<Rightarrow> nat \<Rightarrow> nat \<Rightarrow> unit io" where
  "tabsMove w i index =
     api (\<lambda>s. case windows s w of
                 None \<Rightarrow> None
               | Some ts \<Rightarrow>
                   (case find (\<lambda>t. tab_id t = i) ts of
                      None \<Rightarrow> None
                    | Some t \<Rightarrow>
                        Some ((), s\<lparr>windows := (windows s)(w \<mapsto> pinned_first
                          (insert_at index t (filter (\<lambda>c. tab_id c \<noteq> i) ts)))\<rparr>)))"

definition tabsRemove :: "nat \<Rightarrow> nat \<Rightarrow> unit io" where
  "tabsRemove w i =
     api (\<lambda>s. case windows s w of
                 None \<Rightarrow> None
               | Some ts \<Rightarrow>
                   if i \<in> tab_id ` set ts
                   then Some ((), s\<lparr>windows := (windows s)(w \<mapsto>
                          filter (\<lambda>c. tab_id c \<noteq> i) ts)\<rparr>)
                   else None)"

text \<open>
  \<^verbatim>\<open>windows.create()\<close>: a new window holding one tab on the browser's start page.
\<close>

definition windowsCreate :: "nat io" where
  "windowsCreate =
     api (\<lambda>s. let w = nextId s;
                   t = \<lparr>tab_id = Suc (nextId s), tab_url = homeUrl s,
                        tab_title = pageTitle s (homeUrl s), tab_pinned = False\<rparr> in
               Some (w, s\<lparr>windows := (windows s)(w \<mapsto> [t]),
                          nextId := Suc (Suc (nextId s))\<rparr>))"

section \<open>The sync guard\<close>

text \<open>
  Lines 189-196 and 307-314: a request that finds a pass running adds its window to
  \<^verbatim>\<open>pendingSyncs\<close> and returns; otherwise it takes the flag. Lines 282-293 and
  380-391, the \<^verbatim>\<open>finally\<close> block of both reconcilers: the flag is dropped and the
  first pending window, if any, is taken out of the set and handed to
  \<^verbatim>\<open>syncTabsToBookmarks\<close> without waiting for it. The call that was started is
  returned to the caller as a \<open>request\<close>.
\<close>

datatype admission = Admitted | Deferred

datatype request = TabsToBookmarks nat | BookmarksToTabs nat

definition set_add :: "nat \<Rightarrow> nat list \<Rightarrow> nat list" where
  "set_add w ws = (if w \<in> set ws then ws else ws @ [w])"

definition enter :: "nat \<Rightarrow> state \<Rightarrow> admission \<times> state" where
  "enter w s =
     (if isSyncing s then (Deferred, s\<lparr>pendingSyncs := set_add w (pendingSyncs s)\<rparr>)
      else (Admitted, s\<lparr>isSyncing := True\<rparr>))"

definition release :: "state \<Rightarrow> state \<times> request option" where
  "release s =
     (let s1 = s\<lparr>isSyncing := False\<rparr> in
      case pendingSyncs s1 of
        [] \<Rightarrow> (s1, None)
      | nextWindowId # _ \<Rightarrow>
          (s1\<lparr>pendingSyncs := remove1 nextWindowId (pendingSyncs s1)\<rparr>,
           Some (TabsToBookmarks nextWindowId)))"

text \<open>\<^verbatim>\<open>try { body } finally { release }\<close>: the block runs whether the body threw or not.\<close>

definition try_finally :: "unit io \<Rightarrow> state \<Rightarrow> (error + unit) \<times> state \<times> request option" where
  "try_finally body s = (case body s of (r, s1) \<Rightarrow> (r, release s1))"

section \<open>Tab to bookmark reconciliation\<close>

definition excluded :: "string \<Rightarrow> bool" where
  "excluded u = (u = [] \<or> startsWith u ''about:'' \<or> startsWith u ''moz-extension:'')"

text \<open>Lines 208-214: the \<^verbatim>\<open>Map\<close> from URL to bookmark; a later child overwrites an earlier.\<close>

definition bookmarksByUrl :: "(nat \<times> bookmark) list \<Rightarrow> string \<rightharpoonup> nat \<times> bookmark" where
  "bookmarksByUrl existingBookmarks =
     fold (\<lambda>(index, bookmark) m.
             case bm_url bookmark of
               None \<Rightarrow> m
             | Some url \<Rightarrow> if url = [] then m else m(url \<mapsto> (index, bookmark)))
          existingBookmarks Map.empty"

text \<open>
  Lines 240-264, one tab that is not skipped; the result is the id added to
  \<^verbatim>\<open>seenBookmarkIds\<close>. \<open>index\<close> is the \<^verbatim>\<open>index\<close> the bookmark had in the
  snapshot.
\<close>

definition syncTab :: "nat \<Rightarrow> (string \<rightharpoonup> nat \<times> bookmark) \<Rightarrow> nat \<Rightarrow> tab \<Rightarrow> nat io" where
  "syncTab f byUrl bookmarkIndex t =
     (case byUrl (tab_url t) of
        Some (index, existingBookmark) \<Rightarrow>
          bind (if bm_title existingBookmark \<noteq> tab_title t
                then bookmarksUpdate f (bm_id existingBookmark) (tab_title t) else ret ())
            (\<lambda>_. bind (if index \<noteq> bookmarkIndex
                        then bookmarksMove f (bm_id existingBookmark) bookmarkIndex else ret ())
              (\<lambda>_. ret (bm_id existingBookmark)))
      | None \<Rightarrow>
          bind (bookmarksCreate f (tab_title t) (tab_url t) bookmarkIndex)
            (\<lambda>newBookmark. ret (bm_id newBookmark)))"

text \<open>Lines 223-267, the loop over the tabs, with its three accumulators.\<close>

fun tabLoop :: "nat \<Rightarrow> (string \<rightharpoonup> nat \<times> bookmark) \<Rightarrow> tab list \<Rightarrow> nat \<Rightarrow> nat set \<Rightarrow> string set
    \<Rightarrow> (nat set \<times> string set) io" where
  "tabLoop f byUrl [] bookmarkIndex seenBookmarkIds pinnedUrls s =
     (Inr (seenBookmarkIds, pinnedUrls), s)"
| "tabLoop f byUrl (t # ts) bookmarkIndex seenBookmarkIds pinnedUrls s =
     (if excluded (tab_url t) then tabLoop f byUrl ts bookmarkIndex seenBookmarkIds pinnedUrls s
      else
        let pinnedUrls' = (if tab_pinned t then insert (tab_url t) pinnedUrls else pinnedUrls) in
        case syncTab f byUrl bookmarkIndex t s of
          (Inl e, s1) \<Rightarrow> (Inl e, s1)
        | (Inr seenId, s1) \<Rightarrow>
            tabLoop f byUrl ts (Suc bookmarkIndex) (insert seenId seenBookmarkIds) pinnedUrls' s1)"

text \<open>Lines 269-274: every child of the snapshot that was not marked is removed.\<close>

fun removeUnseen :: "nat \<Rightarrow> nat set \<Rightarrow> (nat \<times> bookmark) list \<Rightarrow> unit io" where
  "removeUnseen f seenBookmarkIds [] s = (Inr (), s)"
| "removeUnseen f seenBookmarkIds ((index, bookmark) # rest) s =
     (if bm_id bookmark \<notin> seenBookmarkIds
      then (case bookmarksRemove f (bm_id bookmark) s of
              (Inl e, s1) \<Rightarrow> (Inl e, s1)
            | (Inr _, s1) \<Rightarrow> removeUnseen f seenBookmarkIds rest s1)
      else removeUnseen f seenBookmarkIds rest s)"

text \<open>Lines 200-281, the body of the \<^verbatim>\<open>try\<close> block.\<close>

definition tabsToBookmarks_body :: "nat \<Rightarrow> nat \<Rightarrow> unit io" where
  "tabsToBookmarks_body windowId f =
     bind (tabsQuery windowId) (\<lambda>tabs.
     bind (bookmarksGetSubTree f) (\<lambda>existingBookmarks.
     bind (tabLoop f (bookmarksByUrl existingBookmarks) (map snd tabs) 0 {} {})
       (\<lambda>(seenBookmarkIds, pinnedUrls).
     bind (removeUnseen f seenBookmarkIds existingBookmarks) (\<lambda>_.
     bind (modify (\<lambda>s. s\<lparr>pinnedTabsByFolder := (pinnedTabsByFolder s)(f \<mapsto> pinnedUrls)\<rparr>))
       (\<lambda>_. savePinnedTabs)))))"

text \<open>
  Lines 185-294. The result is what the call threw or returned, the state it left, and
  the follow-up call its \<^verbatim>\<open>finally\<close> block started.
\<close>

definition syncTabsToBookmarks :: "nat \<Rightarrow> state \<Rightarrow> (error + unit) \<times> state \<times> request option" where
  "syncTabsToBookmarks windowId s =
     (case map_of (windowMappings s) windowId of
        None \<Rightarrow> (Inr (), s, None)
      | Some m \<Rightarrow>
          (case enter windowId s of
             (Deferred, s1) \<Rightarrow> (Inr (), s1, None)
           | (Admitted, s1) \<Rightarrow> try_finally (tabsToBookmarks_body windowId (folderId m)) s1))"


section \<open>Bookmark to tab reconciliation\<close>

text \<open>
  Lines 301-303: \<^verbatim>\<open>Object.keys(windowMappings).find(...)\<close>. The keys of a JavaScript
  object that are integers come in ascending order.
\<close>

definition findWindow :: "(nat \<times> mapping) list \<Rightarrow> nat \<Rightarrow> nat option" where
  "findWindow wm f =
     find (\<lambda>wId. case map_of wm wId of None \<Rightarrow> False | Some m \<Rightarrow> folderId m = f)
       (sort (remdups (map fst wm)))"

text \<open>Lines 327-333: the \<^verbatim>\<open>Map\<close> from URL to tab, special pages left out.\<close>

definition tabsByUrl :: "(nat \<times> tab) list \<Rightarrow> string \<rightharpoonup> nat \<times> tab" where
  "tabsByUrl tabs =
     fold (\<lambda>(index, t) m. if \<not> excluded (tab_url t) then m(tab_url t \<mapsto> (index, t)) else m)
          tabs Map.empty"

text \<open>
  Lines 345-371, one bookmark that has a URL, at position \<open>i\<close> of the folder; the
  result is the id added to \<^verbatim>\<open>seenTabIds\<close>.
\<close>

definition syncBookmark :: "nat \<Rightarrow> (string \<rightharpoonup> nat \<times> tab) \<Rightarrow> string set \<Rightarrow> nat \<Rightarrow> string \<Rightarrow> nat io"
  where
  "syncBookmark w byUrl pinnedUrls i url =
     (let shouldBePinned = (url \<in> pinnedUrls) in
      case byUrl url of
        Some (index, existingTab) \<Rightarrow>
          bind (if tab_pinned existingTab \<noteq> shouldBePinned
                then tabsUpdate w (tab_id existingTab) shouldBePinned else ret ())
            (\<lambda>_. bind (if index \<noteq> i then tabsMove w (tab_id existingTab) i else ret ())
              (\<lambda>_. ret (tab_id existingTab)))
      | None \<Rightarrow>
          bind (tabsCreate w url shouldBePinned (Some i)) (\<lambda>newTab. ret (tab_id newTab)))"

text \<open>Lines 339-372: the loop over all children; only a child without URL is skipped.\<close>

fun bookmarkLoop :: "nat \<Rightarrow> (string \<rightharpoonup> nat \<times> tab) \<Rightarrow> string set \<Rightarrow> (nat \<times> bookmark) list
    \<Rightarrow> nat set \<Rightarrow> nat set io" where
  "bookmarkLoop w byUrl pinnedUrls [] seenTabIds s = (Inr seenTabIds, s)"
| "bookmarkLoop w byUrl pinnedUrls ((i, bookmark) # rest) seenTabIds s =
     (case bm_url bookmark of
        None \<Rightarrow> bookmarkLoop w byUrl pinnedUrls rest seenTabIds s
      | Some url \<Rightarrow>
          if url = [] then bookmarkLoop w byUrl pinnedUrls rest seenTabIds s
          else
            (case syncBookmark w byUrl pinnedUrls i url s of
               (Inl e, s1) \<Rightarrow> (Inl e, s1)
             | (Inr seenId, s1) \<Rightarrow>
                 bookmarkLoop w byUrl pinnedUrls rest (insert seenId seenTabIds) s1))"

text \<open>Lines 374-379: unmarked tabs of the snapshot are closed, special pages apart.\<close>

fun closeUnseen :: "nat \<Rightarrow> nat set \<Rightarrow> (nat \<times> tab) list \<Rightarrow> unit io" where
  "closeUnseen w seenTabIds [] s = (Inr (), s)"
| "closeUnseen w seenTabIds ((index, t) # rest) s =
     (if tab_id t \<notin> seenTabIds \<and> \<not> startsWith (tab_url t) ''about:''
          \<and> \<not> startsWith (tab_url t) ''moz-extension:''
      then (case tabsRemove w (tab_id t) s of
              (Inl e, s1) \<Rightarrow> (Inl e, s1)
            | (Inr _, s1) \<Rightarrow> closeUnseen w seenTabIds rest s1)
      else closeUnseen w seenTabIds rest s)"

definition bookmarksToTabs_body :: "nat \<Rightarrow> nat \<Rightarrow> unit io" where
  "bookmarksToTabs_body f windowId =
     bind (bookmarksGetSubTree f) (\<lambda>children.
     bind (tabsQuery windowId) (\<lambda>tabs.
     bind (get (\<lambda>s. case pinnedTabsByFolder s f of None \<Rightarrow> {} | Some p \<Rightarrow> p)) (\<lambda>pinnedUrls.
     bind (bookmarkLoop windowId (tabsByUrl tabs) pinnedUrls children {})
       (\<lambda>seenTabIds. closeUnseen windowId seenTabIds tabs))))"

text \<open>Lines 299-392.\<close>

definition syncBookmarksToTabs :: "nat \<Rightarrow> state \<Rightarrow> (error + unit) \<times> state \<times> request option" where
  "syncBookmarksToTabs f s =
     (case findWindow (windowMappings s) f of
        None \<Rightarrow> (Inr (), s, None)
      | Some windowId \<Rightarrow>
          (case enter windowId s of
             (Deferred, s1) \<Rightarrow> (Inr (), s1, None)
           | (Admitted, s1) \<Rightarrow> try_finally (bookmarksToTabs_body f windowId) s1))"

section \<open>Association and opening a folder as a window\<close>

text \<open>Lines 117-120.\<close>

definition disassociateWindow :: "nat \<Rightarrow> unit io" where
  "disassociateWindow windowId =
     bind (modify (\<lambda>s. s\<lparr>windowMappings := AList.delete windowId (windowMappings s)\<rparr>))
       (\<lambda>_. saveWindowMappings)"

text \<open>Lines 161-172: one tab per bookmark, created without an index.\<close>

fun createTabs :: "nat \<Rightarrow> string set \<Rightarrow> string list \<Rightarrow> unit io" where
  "createTabs w pinnedUrls [] s = (Inr (), s)"
| "createTabs w pinnedUrls (url # rest) s =
     (case tabsCreate w url (url \<in> pinnedUrls) None s of
        (Inl e, s1) \<Rightarrow> (Inl e, s1)
      | (Inr _, s1) \<Rightarrow> createTabs w pinnedUrls rest s1)"

text \<open>Line 131: the children that become tabs.\<close>

definition urlBookmarks :: "(nat \<times> bookmark) list \<Rightarrow> string list" where
  "urlBookmarks children =
     map (\<lambda>(i, b). the (bm_url b))
       (filter (\<lambda>(i, b). case bm_url b of
                           None \<Rightarrow> False
                         | Some url \<Rightarrow> url \<noteq> [] \<and> \<not> startsWith url ''about:''
                                        \<and> \<not> startsWith url ''moz-extension:'')
          children)"

definition setMapping :: "nat \<Rightarrow> nat \<Rightarrow> string \<Rightarrow> unit io" where
  "setMapping w f title =
     modify (\<lambda>s. s\<lparr>windowMappings :=
       AList.update w \<lparr>folderId = f, folderTitle = title\<rparr> (windowMappings s)\<rparr>)"

text \<open>
  Lines 125-180; the result is the id of the new window. \<^verbatim>\<open>initialTabs[0]?.id\<close> is
  \<^verbatim>\<open>undefined\<close> for a window without tabs, and the blank tab is only closed when its
  id is truthy, that is, not \<open>0\<close>.
\<close>

definition openFolderAsNewWindow :: "nat \<Rightarrow> string \<Rightarrow> nat io" where
  "openFolderAsNewWindow f title =
     bind (bookmarksGetSubTree f) (\<lambda>children.
       if urlBookmarks children = [] then
         bind windowsCreate (\<lambda>newWindow.
         bind (setMapping newWindow f title) (\<lambda>_.
         bind saveWindowMappings (\<lambda>_.
         bind (updateFolderLastUsed f) (\<lambda>_. ret newWindow))))
       else
         bind (get (\<lambda>s. case pinnedTabsByFolder s f of None \<Rightarrow> {} | Some p \<Rightarrow> p)) (\<lambda>pinnedUrls.
         bind windowsCreate (\<lambda>newWindow.
         bind (tabsQuery newWindow) (\<lambda>initialTabs.
         bind (setMapping newWindow f title) (\<lambda>_.
         bind saveWindowMappings (\<lambda>_.
         bind (updateFolderLastUsed f) (\<lambda>_.
         bind (createTabs newWindow pinnedUrls (urlBookmarks children)) (\<lambda>_.
         bind (case initialTabs of
                 [] \<Rightarrow> ret ()
               | (i, blank) # _ \<Rightarrow>
                   if tab_id blank \<noteq> 0 then tabsRemove newWindow (tab_id blank) else ret ())
           (\<lambda>_. ret newWindow)))))))))"

section \<open>Running the follow-up calls\<close>

definition run :: "request \<Rightarrow> state \<Rightarrow> (error + unit) \<times> state \<times> request option" where
  "run r = (case r of TabsToBookmarks w \<Rightarrow> syncTabsToBookmarks w
                    | BookmarksToTabs f \<Rightarrow> syncBookmarksToTabs f)"

section \<open>Frame lemmas\<close>

definition preserves :: "(state \<Rightarrow> 'b) \<Rightarrow> 'a io \<Rightarrow> bool" where
  "preserves g m = (\<forall>s r s'. m s = (r, s') \<longrightarrow> g s' = g s)"

lemma preservesD: "preserves g m \<Longrightarrow> m s = (r, s') \<Longrightarrow> g s' = g s"
  by (simp add: preserves_def)

lemma preserves_ret: "preserves g (ret x)"
  by (simp add: preserves_def ret_def)

lemma preserves_bind:
  assumes "preserves g m" and "\<And>x. preserves g (f x)"
  shows "preserves g (bind m f)"
  using assms unfolding preserves_def bind_def
  by (auto split: prod.splits sum.splits)

lemma preserves_get: "preserves g (get h)"
  by (simp add: preserves_def get_def)

lemma preserves_modify: "(\<And>s. g (h s) = g s) \<Longrightarrow> preserves g (modify h)"
  by (auto simp: preserves_def modify_def)

lemma preserves_case_prod:
  "(\<And>a b. preserves g (f a b)) \<Longrightarrow> preserves g (case x of (a, b) \<Rightarrow> f a b)"
  by (cases x) simp

lemma preserves_api:
  assumes "\<And>s c. g (s\<lparr>calls := c\<rparr>) = g s"
    and "\<And>s x s'. op s = Some (x, s') \<Longrightarrow> g s' = g s"
  shows "preserves g (api op)"
  unfolding preserves_def api_def Let_def
  using assms by (auto split: if_splits option.splits)

text \<open>The variables of the script, which no browser call touches.\<close>

definition script_vars ::
  "state \<Rightarrow> (nat \<times> mapping) list \<times> (nat \<rightharpoonup> string set) \<times> (nat \<rightharpoonup> nat) \<times> bool \<times> nat list" where
  "script_vars s =
     (windowMappings s, pinnedTabsByFolder s, folderLastUsed s, isSyncing s, pendingSyncs s)"

lemmas browser_defs = bookmarksGetSubTree_def bookmarksCreate_def bookmarksUpdate_def
  bookmarksMove_def bookmarksRemove_def tabsQuery_def tabsCreate_def tabsUpdate_def
  tabsMove_def tabsRemove_def windowsCreate_def saveWindowMappings_def savePinnedTabs_def

lemma browser_script_vars:
  "preserves script_vars (bookmarksGetSubTree f)"
  "preserves script_vars (bookmarksCreate f t u i)"
  "preserves script_vars (bookmarksUpdate f b t)"
  "preserves script_vars (bookmarksMove f b i)"
  "preserves script_vars (bookmarksRemove f b)"
  "preserves script_vars (tabsQuery w)"
  "preserves script_vars (tabsCreate w u p io)"
  "preserves script_vars (tabsUpdate w b p)"
  "preserves script_vars (tabsMove w b i)"
  "preserves script_vars (tabsRemove w b)"
  "preserves script_vars windowsCreate"
  "preserves script_vars saveWindowMappings"
  "preserves script_vars savePinnedTabs"
  unfolding browser_defs
  by (rule preserves_api; auto simp: Let_def script_vars_def split: option.splits if_splits)+

lemma syncTab_script_vars: "preserves script_vars (syncTab f byUrl k t)"
  unfolding syncTab_def
  by (auto split: option.splits intro!: preserves_bind preserves_ret browser_script_vars)


lemma tabLoop_preserves:
  assumes "\<And>k t. preserves g (syncTab f byUrl k t)"
  shows "preserves g (tabLoop f byUrl ts k seen pinned)"
proof (induction ts arbitrary: k seen pinned)
  case Nil
  show ?case by (simp add: preserves_def)
next
  case (Cons t ts)
  show ?case
    unfolding preserves_def
    using Cons [unfolded preserves_def] assms [unfolded preserves_def]
    by (fastforce simp: Let_def split: if_splits prod.splits sum.splits)
qed

lemma removeUnseen_preserves:
  assumes "\<And>i. preserves g (bookmarksRemove f i)"
  shows "preserves g (removeUnseen f seen bs)"
proof (induction bs)
  case Nil
  show ?case by (simp add: preserves_def)
next
  case (Cons ib bs)
  show ?case
    unfolding preserves_def
    using Cons [unfolded preserves_def] assms [unfolded preserves_def]
    by (cases ib) (fastforce split: if_splits prod.splits sum.splits)
qed

lemma bookmarkLoop_preserves:
  assumes "\<And>i u. preserves g (syncBookmark w byUrl pinnedUrls i u)"
  shows "preserves g (bookmarkLoop w byUrl pinnedUrls bs seen)"
proof (induction bs arbitrary: seen)
  case Nil
  show ?case by (simp add: preserves_def)
next
  case (Cons ib bs)
  show ?case
    unfolding preserves_def
    using Cons [unfolded preserves_def] assms [unfolded preserves_def]
    by (cases ib) (fastforce split: if_splits prod.splits sum.splits option.splits)
qed

lemma closeUnseen_preserves:
  assumes "\<And>i. preserves g (tabsRemove w i)"
  shows "preserves g (closeUnseen w seen ts)"
proof (induction ts)
  case Nil
  show ?case by (simp add: preserves_def)
next
  case (Cons it ts)
  show ?case
    unfolding preserves_def
    using Cons [unfolded preserves_def] assms [unfolded preserves_def]
    by (cases it) (fastforce split: if_splits prod.splits sum.splits)
qed

lemma createTabs_preserves:
  assumes "\<And>u p. preserves g (tabsCreate w u p None)"
  shows "preserves g (createTabs w pinnedUrls us)"
proof (induction us)
  case Nil
  show ?case by (simp add: preserves_def)
next
  case (Cons u us)
  show ?case
    unfolding preserves_def
    using Cons [unfolded preserves_def] assms [unfolded preserves_def]
    by (fastforce split: if_splits prod.splits sum.splits)
qed


lemma syncBookmark_script_vars: "preserves script_vars (syncBookmark w byUrl p i u)"
  unfolding syncBookmark_def Let_def
  by (auto split: option.splits intro!: preserves_bind preserves_ret browser_script_vars)

text \<open>The body of a pass leaves the flag, the pending set and the mappings alone.\<close>

definition guard_vars :: "state \<Rightarrow> (nat \<times> mapping) list \<times> bool \<times> nat list" where
  "guard_vars s = (windowMappings s, isSyncing s, pendingSyncs s)"

lemma preserves_guard_vars: "preserves script_vars m \<Longrightarrow> preserves guard_vars m"
  by (auto simp: preserves_def script_vars_def guard_vars_def)

lemma tabsToBookmarks_body_guard: "preserves guard_vars (tabsToBookmarks_body w f)"
  unfolding tabsToBookmarks_body_def
  by (intro preserves_bind preserves_case_prod preserves_guard_vars browser_script_vars
        tabLoop_preserves removeUnseen_preserves syncTab_script_vars preserves_modify)
     (simp add: guard_vars_def)

lemma bookmarksToTabs_body_script: "preserves script_vars (bookmarksToTabs_body f w)"
  unfolding bookmarksToTabs_body_def
  by (intro preserves_bind browser_script_vars preserves_get bookmarkLoop_preserves
        closeUnseen_preserves syncBookmark_script_vars)

section \<open>Errors end the pass\<close>

definition errs_last :: "'a io \<Rightarrow> bool" where
  "errs_last m = (\<forall>s n s'. m s = (Inl (Rejected n), s') \<longrightarrow> calls s' = Suc n)"

lemma errs_lastD: "errs_last m \<Longrightarrow> m s = (Inl (Rejected n), s') \<Longrightarrow> calls s' = Suc n"
  by (simp add: errs_last_def)

lemma errs_last_ret: "errs_last (ret x)"
  by (simp add: errs_last_def ret_def)

lemma errs_last_get: "errs_last (get h)"
  by (simp add: errs_last_def get_def)

lemma errs_last_modify: "errs_last (modify h)"
  by (simp add: errs_last_def modify_def)

lemma errs_last_api: "errs_last (api op)"
  by (auto simp: errs_last_def api_def Let_def split: if_splits option.splits)

lemma errs_last_bind:
  assumes "errs_last m" and "\<And>x. errs_last (f x)"
  shows "errs_last (bind m f)"
  using assms unfolding errs_last_def bind_def
  by (auto split: prod.splits sum.splits)

lemma errs_last_case_prod:
  "(\<And>a b. errs_last (f a b)) \<Longrightarrow> errs_last (case x of (a, b) \<Rightarrow> f a b)"
  by (cases x) simp

lemma errs_last_browser:
  "errs_last (bookmarksGetSubTree f)"
  "errs_last (bookmarksCreate f t u i)"
  "errs_last (bookmarksUpdate f b t)"
  "errs_last (bookmarksMove f b i)"
  "errs_last (bookmarksRemove f b)"
  "errs_last (tabsQuery w)"
  "errs_last (tabsCreate w u p io)"
  "errs_last (tabsUpdate w b p)"
  "errs_last (tabsMove w b i)"
  "errs_last (tabsRemove w b)"
  "errs_last windowsCreate"
  "errs_last saveWindowMappings"
  "errs_last savePinnedTabs"
  unfolding browser_defs by (rule errs_last_api)+

lemma errs_last_syncTab: "errs_last (syncTab f byUrl k t)"
  unfolding syncTab_def
  by (auto split: option.splits intro!: errs_last_bind errs_last_ret errs_last_browser)

lemma errs_last_syncBookmark: "errs_last (syncBookmark w byUrl p i u)"
  unfolding syncBookmark_def Let_def
  by (auto split: option.splits intro!: errs_last_bind errs_last_ret errs_last_browser)

lemma errs_last_tabLoop: "errs_last (tabLoop f byUrl ts k seen pinned)"
proof (induction ts arbitrary: k seen pinned)
  case Nil
  show ?case by (simp add: errs_last_def)
next
  case (Cons t ts)
  show ?case
    unfolding errs_last_def
    using Cons [unfolded errs_last_def] errs_last_syncTab [unfolded errs_last_def]
    by (fastforce simp: Let_def split: if_splits prod.splits sum.splits)
qed

lemma errs_last_removeUnseen: "errs_last (removeUnseen f seen bs)"
proof (induction bs)
  case Nil
  show ?case by (simp add: errs_last_def)
next
  case (Cons ib bs)
  show ?case
    unfolding errs_last_def
    using Cons [unfolded errs_last_def] errs_last_browser(5) [unfolded errs_last_def]
    by (cases ib) (fastforce split: if_splits prod.splits sum.splits)
qed

lemma errs_last_bookmarkLoop: "errs_last (bookmarkLoop w byUrl p bs seen)"
proof (induction bs arbitrary: seen)
  case Nil
  show ?case by (simp add: errs_last_def)
next
  case (Cons ib bs)
  show ?case
    unfolding errs_last_def
    using Cons [unfolded errs_last_def] errs_last_syncBookmark [unfolded errs_last_def]
    by (cases ib) (fastforce split: if_splits prod.splits sum.splits option.splits)
qed

lemma errs_last_closeUnseen: "errs_last (closeUnseen w seen ts)"
proof (induction ts)
  case Nil
  show ?case by (simp add: errs_last_def)
next
  case (Cons it ts)
  show ?case
    unfolding errs_last_def
    using Cons [unfolded errs_last_def] errs_last_browser(10) [unfolded errs_last_def]
    by (cases it) (fastforce split: if_splits prod.splits sum.splits)
qed

lemma errs_last_tabsToBookmarks_body: "errs_last (tabsToBookmarks_body w f)"
  unfolding tabsToBookmarks_body_def
  by (intro errs_last_bind errs_last_case_prod errs_last_browser errs_last_tabLoop
        errs_last_removeUnseen errs_last_modify)

lemma errs_last_bookmarksToTabs_body: "errs_last (bookmarksToTabs_body f w)"
  unfolding bookmarksToTabs_body_def
  by (intro errs_last_bind errs_last_browser errs_last_get errs_last_bookmarkLoop
        errs_last_closeUnseen)


section \<open>The guard around a pass\<close>

lemma release_idle: "isSyncing (fst (release s)) = False"
  by (simp add: release_def Let_def split: list.splits)

lemma release_pending:
  "release s = (s', d) \<Longrightarrow>
     pendingSyncs s' = tl (pendingSyncs s) \<and>
     d = (case pendingSyncs s of [] \<Rightarrow> None | x # _ \<Rightarrow> Some (TabsToBookmarks x)) \<and>
     windowMappings s' = windowMappings s"
  by (auto simp: release_def Let_def split: list.splits)

lemma try_finally_guard:
  assumes "preserves guard_vars body" and "try_finally body s = (r, s', d)"
  shows "\<not> isSyncing s' \<and> pendingSyncs s' = tl (pendingSyncs s)
     \<and> d = (case pendingSyncs s of [] \<Rightarrow> None | x # _ \<Rightarrow> Some (TabsToBookmarks x))
     \<and> windowMappings s' = windowMappings s"
proof -
  obtain r1 s1 where b: "body s = (r1, s1)" by (cases "body s")
  from preservesD [OF assms(1) b] have g: "pendingSyncs s1 = pendingSyncs s" "windowMappings s1 = windowMappings s"
    by (simp_all add: guard_vars_def)
  from assms(2) b have rel: "release s1 = (s', d)" and "r = r1"
    by (simp_all add: try_finally_def)
  from release_pending [OF rel] release_idle [of s1] rel g show ?thesis by simp
qed

lemma run_measure:
  assumes "run rq s = (r, s', d)"
  shows "(d = None \<or> length (pendingSyncs s') < length (pendingSyncs s))"
proof (cases rq)
  case (TabsToBookmarks w)
  show ?thesis
  proof (cases "map_of (windowMappings s) w")
    case None
    with assms TabsToBookmarks show ?thesis by (simp add: run_def syncTabsToBookmarks_def)
  next
    case (Some m)
    show ?thesis
    proof (cases "isSyncing s")
      case True
      with assms TabsToBookmarks Some show ?thesis
        by (simp add: run_def syncTabsToBookmarks_def enter_def)
    next
      case False
      with assms TabsToBookmarks Some have
        "try_finally (tabsToBookmarks_body w (folderId m)) (s\<lparr>isSyncing := True\<rparr>) = (r, s', d)"
        by (simp add: run_def syncTabsToBookmarks_def enter_def)
      from try_finally_guard [OF tabsToBookmarks_body_guard this] show ?thesis
        by (cases "pendingSyncs s") auto
    qed
  qed
next
  case (BookmarksToTabs f)
  show ?thesis
  proof (cases "findWindow (windowMappings s) f")
    case None
    with assms BookmarksToTabs show ?thesis by (simp add: run_def syncBookmarksToTabs_def)
  next
    case (Some w)
    show ?thesis
    proof (cases "isSyncing s")
      case True
      with assms BookmarksToTabs Some show ?thesis
        by (simp add: run_def syncBookmarksToTabs_def enter_def)
    next
      case False
      with assms BookmarksToTabs Some have
        "try_finally (bookmarksToTabs_body f w) (s\<lparr>isSyncing := True\<rparr>) = (r, s', d)"
        by (simp add: run_def syncBookmarksToTabs_def enter_def)
      from try_finally_guard [OF preserves_guard_vars [OF bookmarksToTabs_body_script] this]
      show ?thesis
        by (cases "pendingSyncs s") auto
    qed
  qed
qed

text \<open>
  The call a \<^verbatim>\<open>finally\<close> block starts is itself a pass with a \<^verbatim>\<open>finally\<close>
  block: \<open>drain\<close> runs the calls one after the other until none is started. Each of
  them takes one window out of the pending set, so the chain ends.
\<close>

function drain :: "request option \<Rightarrow> state \<Rightarrow> state" where
  "drain None s = s"
| "drain (Some rq) s = (case run rq s of (r, s', d) \<Rightarrow> drain d s')"
  by pat_completeness auto
termination
proof (relation "measure (\<lambda>(d, s). case d of None \<Rightarrow> 0 | Some _ \<Rightarrow> Suc (length (pendingSyncs s)))",
    goal_cases)
  case 1
  show ?case by simp
next
  case (2 rq s r y s' d)
  then have "run rq s = (r, s', d)" by simp
  from run_measure [OF this] show ?case
    by (cases d) auto
qed

lemma run_idle: "\<not> isSyncing s \<Longrightarrow> run rq s = (r, s', d) \<Longrightarrow> \<not> isSyncing s'"
  by (cases rq)
     (auto simp: run_def syncTabsToBookmarks_def syncBookmarksToTabs_def enter_def try_finally_def
        release_def Let_def split: option.splits prod.splits list.splits)

lemma drain_idle: "\<not> isSyncing s \<Longrightarrow> \<not> isSyncing (drain d s)"
proof (induction d s rule: drain.induct)
  case (1 s)
  then show ?case by simp
next
  case (2 rq s)
  obtain r s' d where run: "run rq s = (r, s', d)" by (cases "run rq s")
  from run_idle [OF "2.prems" run] have idle: "\<not> isSyncing s'" .
  have "\<not> isSyncing (drain d s')"
    using "2.IH" [OF run [symmetric] refl idle] .
  with run show ?case by simp
qed


section \<open>Example states\<close>

definition demo :: state where
  "demo = \<lparr>windowMappings = [(1, \<lparr>folderId = 10, folderTitle = ''Work''\<rparr>)],
     pinnedTabsByFolder = Map.empty, folderLastUsed = Map.empty,
     isSyncing = False, pendingSyncs = [],
     bookmarks = [10 \<mapsto> []], windows = [1 \<mapsto> []],
     stored_mappings = [], stored_pinned = Map.empty, stored_lastUsed = Map.empty,
     nextId = 100, clock = 0, pageTitle = (\<lambda>u. u), homeUrl = ''about:home'',
     calls = 0, faults = {}\<rparr>"

definition page :: "nat \<Rightarrow> string \<Rightarrow> tab" where
  "page i u = \<lparr>tab_id = i, tab_url = u, tab_title = u, tab_pinned = False\<rparr>"

definition entry :: "nat \<Rightarrow> string \<Rightarrow> bookmark" where
  "entry i u = \<lparr>bm_id = i, bm_title = u, bm_url = Some u\<rparr>"

definition failing :: state where
  "failing = demo\<lparr>windows := [1 \<mapsto> [page 1 ''c'', page 2 ''a'', page 3 ''b'']],
     bookmarks := [10 \<mapsto> [entry 5 ''a'', entry 6 ''b'', entry 7 ''c'']], faults := {3}\<rparr>"

lemmas model_defs = syncTabsToBookmarks_def syncBookmarksToTabs_def enter_def try_finally_def
  release_def tabsToBookmarks_body_def bookmarksToTabs_body_def bind_def ret_def get_def
  modify_def api_def browser_defs syncTab_def syncBookmark_def bookmarksByUrl_def tabsByUrl_def
  excluded_def startsWith_def insert_at_def pinned_first_def findWindow_def set_add_def
  updateFolderLastUsed_def openFolderAsNewWindow_def urlBookmarks_def setMapping_def
  disassociateWindow_def Let_def

lemmas example_defs = demo_def page_def entry_def failing_def

section \<open>Claims about the guard\<close>

text \<open>
  C5. A request of either direction for a mapped window that finds a pass running
  (\<open>isSyncing\<close> set) changes nothing but the pending set, returns at once and starts
  no follow-up call; the pending set keeps every window it held, in their order, and
  gains the requesting window at its end unless it is there already, so a second
  request for the same window changes nothing and the set stays free of repetitions.
  A request that finds no pass running is admitted and takes the flag: the body of its
  pass starts with the flag set, does not touch the flag or the pending set, and ends
  with the flag still set, so every request that arrives before its \<^verbatim>\<open>finally\<close> block
  is deferred: no two passes run at the same time.
\<close>

theorem guard_defers_while_running:
  "(isSyncing s \<longrightarrow>
      (map_of (windowMappings s) w = Some m \<longrightarrow>
         syncTabsToBookmarks w s
           = (Inr (), s\<lparr>pendingSyncs := (if w \<in> set (pendingSyncs s) then pendingSyncs s
                                          else pendingSyncs s @ [w])\<rparr>, None)
         \<and> syncTabsToBookmarks w (fst (snd (syncTabsToBookmarks w s)))
           = syncTabsToBookmarks w s
         \<and> (distinct (pendingSyncs s) \<longrightarrow>
               distinct (pendingSyncs (fst (snd (syncTabsToBookmarks w s))))))
      \<and> (findWindow (windowMappings s) f = Some w' \<longrightarrow>
         syncBookmarksToTabs f s
           = (Inr (), s\<lparr>pendingSyncs := (if w' \<in> set (pendingSyncs s) then pendingSyncs s
                                          else pendingSyncs s @ [w'])\<rparr>, None)
         \<and> syncBookmarksToTabs f (fst (snd (syncBookmarksToTabs f s)))
           = syncBookmarksToTabs f s
         \<and> (distinct (pendingSyncs s) \<longrightarrow>
               distinct (pendingSyncs (fst (snd (syncBookmarksToTabs f s))))))
      \<and> (\<forall>r s1. tabsToBookmarks_body w f s = (r, s1) \<longrightarrow>
             isSyncing s1 \<and> pendingSyncs s1 = pendingSyncs s)
      \<and> (\<forall>r s1. bookmarksToTabs_body f w s = (r, s1) \<longrightarrow>
             isSyncing s1 \<and> pendingSyncs s1 = pendingSyncs s))
   \<and> (\<not> isSyncing s \<longrightarrow>
      enter w s = (Admitted, s\<lparr>isSyncing := True\<rparr>)
      \<and> (map_of (windowMappings s) w = Some m \<longrightarrow>
         (\<exists>r sb. tabsToBookmarks_body w (folderId m) (s\<lparr>isSyncing := True\<rparr>) = (r, sb)
            \<and> isSyncing sb \<and> pendingSyncs sb = pendingSyncs s
            \<and> syncTabsToBookmarks w s = (r, release sb)))
      \<and> (findWindow (windowMappings s) f = Some w' \<longrightarrow>
         (\<exists>r sb. bookmarksToTabs_body f w' (s\<lparr>isSyncing := True\<rparr>) = (r, sb)
            \<and> isSyncing sb \<and> pendingSyncs sb = pendingSyncs s
            \<and> syncBookmarksToTabs f s = (r, release sb))))"
proof -
  have t: "isSyncing s1 = isSyncing s0 \<and> pendingSyncs s1 = pendingSyncs s0"
    if "tabsToBookmarks_body w0 f0 s0 = (r, s1)" for r s0 s1 w0 f0
    using preservesD [OF tabsToBookmarks_body_guard that] by (simp add: guard_vars_def)
  have b: "isSyncing s1 = isSyncing s0 \<and> pendingSyncs s1 = pendingSyncs s0"
    if "bookmarksToTabs_body f0 w0 s0 = (r, s1)" for r s0 s1 w0 f0
    using preservesD [OF bookmarksToTabs_body_script that] by (simp add: script_vars_def)
  have busy: ?thesis if run: "isSyncing s"
  proof -
    have "isSyncing s1 \<and> pendingSyncs s1 = pendingSyncs s"
      if "tabsToBookmarks_body w f s = (r, s1)" for r s1
      using t [OF that] run by simp
    moreover have "isSyncing s1 \<and> pendingSyncs s1 = pendingSyncs s"
      if "bookmarksToTabs_body f w s = (r, s1)" for r s1
      using b [OF that] run by simp
    ultimately show ?thesis
      using run
      by (auto simp: syncTabsToBookmarks_def syncBookmarksToTabs_def enter_def set_add_def)
  qed
  have idle: ?thesis if idle: "\<not> isSyncing s"
  proof -
    have e: "enter v s = (Admitted, s\<lparr>isSyncing := True\<rparr>)" for v
      using idle by (simp add: enter_def)
    have "\<exists>r sb. tabsToBookmarks_body w (folderId m) (s\<lparr>isSyncing := True\<rparr>) = (r, sb)
            \<and> isSyncing sb \<and> pendingSyncs sb = pendingSyncs s
            \<and> syncTabsToBookmarks w s = (r, release sb)"
      if m: "map_of (windowMappings s) w = Some m"
    proof -
      obtain r sb where body: "tabsToBookmarks_body w (folderId m) (s\<lparr>isSyncing := True\<rparr>) = (r, sb)"
        by (cases "tabsToBookmarks_body w (folderId m) (s\<lparr>isSyncing := True\<rparr>)")
      from t [OF body] have "isSyncing sb" "pendingSyncs sb = pendingSyncs s" by simp_all
      moreover from body m e have "syncTabsToBookmarks w s = (r, release sb)"
        by (simp add: syncTabsToBookmarks_def try_finally_def)
      ultimately show ?thesis using body by blast
    qed
    moreover have "\<exists>r sb. bookmarksToTabs_body f w' (s\<lparr>isSyncing := True\<rparr>) = (r, sb)
            \<and> isSyncing sb \<and> pendingSyncs sb = pendingSyncs s
            \<and> syncBookmarksToTabs f s = (r, release sb)"
      if m: "findWindow (windowMappings s) f = Some w'"
    proof -
      obtain r sb where body: "bookmarksToTabs_body f w' (s\<lparr>isSyncing := True\<rparr>) = (r, sb)"
        by (cases "bookmarksToTabs_body f w' (s\<lparr>isSyncing := True\<rparr>)")
      from b [OF body] have "isSyncing sb" "pendingSyncs sb = pendingSyncs s" by simp_all
      moreover from body m e have "syncBookmarksToTabs f s = (r, release sb)"
        by (simp add: syncBookmarksToTabs_def try_finally_def)
      ultimately show ?thesis using body by blast
    qed
    ultimately show ?thesis using idle e by blast
  qed
  from busy idle show ?thesis by blast
qed

theorem guard_defers_while_running_witness:
  "syncTabsToBookmarks 1 (demo\<lparr>isSyncing := True, pendingSyncs := [2]\<rparr>)
     = (Inr (), demo\<lparr>isSyncing := True, pendingSyncs := [2, 1]\<rparr>, None)
   \<and> syncBookmarksToTabs 10 (demo\<lparr>isSyncing := True, pendingSyncs := [2, 1]\<rparr>)
     = (Inr (), demo\<lparr>isSyncing := True, pendingSyncs := [2, 1]\<rparr>, None)
   \<and> enter 1 demo = (Admitted, demo\<lparr>isSyncing := True\<rparr>)
   \<and> (\<exists>r sb. tabsToBookmarks_body 1 10 (demo\<lparr>isSyncing := True\<rparr>) = (r, sb)
          \<and> isSyncing sb \<and> pendingSyncs sb = []
          \<and> syncTabsToBookmarks 1 demo = (r, release sb))"
proof -
  let ?m = "\<lparr>folderId = 10, folderTitle = ''Work''\<rparr>"
  have a: "isSyncing (demo\<lparr>isSyncing := True, pendingSyncs := [2]\<rparr>)"
    and b: "isSyncing (demo\<lparr>isSyncing := True, pendingSyncs := [2, 1]\<rparr>)"
    and c: "\<not> isSyncing demo"
    by (simp_all add: demo_def)
  show ?thesis
    using guard_defers_while_running [of "demo\<lparr>isSyncing := True, pendingSyncs := [2]\<rparr>" 1 ?m 10 1]
      guard_defers_while_running [of "demo\<lparr>isSyncing := True, pendingSyncs := [2, 1]\<rparr>" 1 ?m 10 1]
      guard_defers_while_running [of demo 1 ?m 10 1] a b c
    by (simp add: demo_def findWindow_def)
qed

text \<open>
  C6. A pass that was admitted leaves the flag cleared whether its body returned or
  threw: the next request is admitted, and once the follow-up calls have run the flag
  is clear again. A pass that threw made no browser call after the one that failed: the
  error names call \<open>n\<close>, and \<open>n + 1\<close> calls have been made when the pass ends.
\<close>

theorem guard_released_after_error:
  assumes "\<not> isSyncing s"
  shows "(syncTabsToBookmarks w s = (r, s', d) \<longrightarrow>
            \<not> isSyncing s' \<and> fst (enter v s') = Admitted \<and> \<not> isSyncing (drain d s')
            \<and> (\<forall>n. r = Inl (Rejected n) \<longrightarrow> calls s' = Suc n))
       \<and> (syncBookmarksToTabs f s = (r, s', d) \<longrightarrow>
            \<not> isSyncing s' \<and> fst (enter v s') = Admitted \<and> \<not> isSyncing (drain d s')
            \<and> (\<forall>n. r = Inl (Rejected n) \<longrightarrow> calls s' = Suc n))"
proof -
  have idle: "\<not> isSyncing s' \<and> fst (enter v s') = Admitted \<and> \<not> isSyncing (drain d s')"
    if "run rq s = (r, s', d)" for rq
    using run_idle [OF assms that] drain_idle [of s' d] by (simp add: enter_def)
  have last: "calls s' = Suc n"
    if "try_finally body s1 = (Inl (Rejected n), s', d)" and "errs_last body" for body s1 n
  proof -
    obtain r1 s2 where b: "body s1 = (r1, s2)" by (cases "body s1")
    with that(1) have "r1 = Inl (Rejected n)" and "s' = fst (release s2)"
      by (auto simp: try_finally_def)
    moreover have "calls (fst (release s2)) = calls s2"
      by (simp add: release_def Let_def split: list.splits)
    ultimately show ?thesis using errs_lastD [OF that(2)] b by simp
  qed
  have t: "calls s' = Suc n" if "syncTabsToBookmarks w s = (Inl (Rejected n), s', d)" for n
    using that last [OF _ errs_last_tabsToBookmarks_body]
    by (auto simp: syncTabsToBookmarks_def enter_def split: option.splits if_splits)
  have b: "calls s' = Suc n" if "syncBookmarksToTabs f s = (Inl (Rejected n), s', d)" for n
    using that last [OF _ errs_last_bookmarksToTabs_body]
    by (auto simp: syncBookmarksToTabs_def enter_def split: option.splits if_splits)
  show ?thesis
    using idle [of "TabsToBookmarks w"] idle [of "BookmarksToTabs f"] t b
    by (auto simp: run_def)
qed


theorem guard_released_after_error_witness:
  "fst (syncTabsToBookmarks 1 failing) = Inl (Rejected 3)
   \<and> \<not> isSyncing (fst (snd (syncTabsToBookmarks 1 failing)))
   \<and> fst (enter 1 (fst (snd (syncTabsToBookmarks 1 failing)))) = Admitted
   \<and> calls (fst (snd (syncTabsToBookmarks 1 failing))) = 4"
proof -
  have idle: "\<not> isSyncing failing" by (simp add: example_defs)
  have r: "fst (syncTabsToBookmarks 1 failing) = Inl (Rejected 3)"
    by (simp add: example_defs model_defs)
  have "syncTabsToBookmarks 1 failing =
      (Inl (Rejected 3), fst (snd (syncTabsToBookmarks 1 failing)),
       snd (snd (syncTabsToBookmarks 1 failing)))"
    using r by (cases "syncTabsToBookmarks 1 failing") simp
  with guard_released_after_error [OF idle, of 1 "Inl (Rejected 3)"
      "fst (snd (syncTabsToBookmarks 1 failing))" "snd (snd (syncTabsToBookmarks 1 failing))" 1]
  show ?thesis using r by simp
qed

text \<open>
  C7. When an admitted pass of either direction ends, the pending set has lost its
  first element and nothing else, and the call that was started for it is
  \<^verbatim>\<open>syncTabsToBookmarks\<close>, also at the end of a bookmark-to-tab pass; an empty
  pending set starts nothing.
\<close>

theorem exit_drains_one_through_tabs:
  assumes "\<not> isSyncing s"
  shows "(map_of (windowMappings s) w = Some m \<and> syncTabsToBookmarks w s = (r, s', d) \<longrightarrow>
            pendingSyncs s' = tl (pendingSyncs s)
            \<and> d = (case pendingSyncs s of [] \<Rightarrow> None | x # _ \<Rightarrow> Some (TabsToBookmarks x)))
       \<and> (findWindow (windowMappings s) f = Some w' \<and> syncBookmarksToTabs f s = (r, s', d) \<longrightarrow>
            pendingSyncs s' = tl (pendingSyncs s)
            \<and> d = (case pendingSyncs s of [] \<Rightarrow> None | x # _ \<Rightarrow> Some (TabsToBookmarks x)))"
proof -
  have "pendingSyncs s' = tl (pendingSyncs s)
      \<and> d = (case pendingSyncs s of [] \<Rightarrow> None | x # _ \<Rightarrow> Some (TabsToBookmarks x))"
    if "try_finally body (s\<lparr>isSyncing := True\<rparr>) = (r, s', d)" and "preserves guard_vars body"
    for body
    using try_finally_guard [OF that(2) that(1)] by simp
  from this [OF _ tabsToBookmarks_body_guard]
    this [OF _ preserves_guard_vars [OF bookmarksToTabs_body_script]] assms
  show ?thesis
    by (auto simp: syncTabsToBookmarks_def syncBookmarksToTabs_def enter_def)
qed

theorem exit_drains_one_through_tabs_witness:
  "snd (snd (syncBookmarksToTabs 10 (demo\<lparr>pendingSyncs := [1, 2]\<rparr>))) = Some (TabsToBookmarks 1)
   \<and> pendingSyncs (fst (snd (syncBookmarksToTabs 10 (demo\<lparr>pendingSyncs := [1, 2]\<rparr>)))) = [2]
   \<and> snd (snd (syncTabsToBookmarks 1 (demo\<lparr>pendingSyncs := [1, 2]\<rparr>))) = Some (TabsToBookmarks 1)
   \<and> pendingSyncs (fst (snd (syncTabsToBookmarks 1 (demo\<lparr>pendingSyncs := [1, 2]\<rparr>)))) = [2]"
proof -
  let ?s = "demo\<lparr>pendingSyncs := [1, 2]\<rparr>"
  have idle: "\<not> isSyncing ?s" by (simp add: example_defs)
  have m: "map_of (windowMappings ?s) 1 = Some \<lparr>folderId = 10, folderTitle = ''Work''\<rparr>"
    and f: "findWindow (windowMappings ?s) 10 = Some 1"
    by (simp_all add: example_defs findWindow_def)
  have b: "syncBookmarksToTabs 10 ?s = (fst (syncBookmarksToTabs 10 ?s),
      fst (snd (syncBookmarksToTabs 10 ?s)), snd (snd (syncBookmarksToTabs 10 ?s)))"
    and t: "syncTabsToBookmarks 1 ?s = (fst (syncTabsToBookmarks 1 ?s),
      fst (snd (syncTabsToBookmarks 1 ?s)), snd (snd (syncTabsToBookmarks 1 ?s)))"
    by simp_all
  from exit_drains_one_through_tabs [OF idle, THEN conjunct2, rule_format, OF conjI, OF f b]
    exit_drains_one_through_tabs [OF idle, THEN conjunct1, rule_format, OF conjI, OF m t]
  show ?thesis by (simp add: example_defs)
qed

section \<open>Claims about the association\<close>

text \<open>
  C8. \<^verbatim>\<open>disassociateWindow\<close> removes the mapping of its window and of no other
  window; the bookmark tree (every folder's entries, in number, content and order), the
  pinned sets in memory and in storage, and the windows are what they were, whether or
  not the write to storage succeeded.
\<close>

theorem disassociateWindow_keeps_folder:
  "map_of (windowMappings (snd (disassociateWindow w s))) = (map_of (windowMappings s))(w := None)
   \<and> bookmarks (snd (disassociateWindow w s)) = bookmarks s
   \<and> pinnedTabsByFolder (snd (disassociateWindow w s)) = pinnedTabsByFolder s
   \<and> stored_pinned (snd (disassociateWindow w s)) = stored_pinned s
   \<and> windows (snd (disassociateWindow w s)) = windows s"
  by (simp add: disassociateWindow_def bind_def modify_def saveWindowMappings_def api_def Let_def
      delete_conv')


section \<open>What a successful browser call did\<close>

lemma api_Inr:
  "api op s = (Inr x, s') \<Longrightarrow> op (s\<lparr>calls := Suc (calls s)\<rparr>) = Some (x, s')"
  by (auto simp: api_def Let_def split: if_splits option.splits)

lemma bookmarksGetSubTree_Inr:
  assumes "bookmarksGetSubTree f s = (Inr snap, s')"
  shows "\<exists>bs. bookmarks s f = Some bs \<and> snap = enumerate 0 bs
    \<and> s' = s\<lparr>calls := Suc (calls s)\<rparr>"
  using api_Inr [OF assms [unfolded bookmarksGetSubTree_def]]
  by (auto split: option.splits)

lemma tabsQuery_Inr:
  assumes "tabsQuery w s = (Inr snap, s')"
  shows "snap = enumerate 0 (case windows s w of None \<Rightarrow> [] | Some ts \<Rightarrow> ts)
    \<and> s' = s\<lparr>calls := Suc (calls s)\<rparr>"
  using api_Inr [OF assms [unfolded tabsQuery_def]] by auto

lemma bookmarksCreate_Inr:
  assumes "bookmarksCreate f title url k s = (Inr b, s')" and "bookmarks s f = Some L"
  shows "b = \<lparr>bm_id = nextId s, bm_title = title, bm_url = Some url\<rparr>
    \<and> bookmarks s' f = Some (insert_at k b L) \<and> nextId s' = Suc (nextId s)"
  using api_Inr [OF assms(1) [unfolded bookmarksCreate_def]] assms(2)
  by (auto simp: Let_def split: option.splits)

definition retitle :: "nat \<Rightarrow> string \<Rightarrow> bookmark list \<Rightarrow> bookmark list" where
  "retitle i title L = map (\<lambda>b. if bm_id b = i then b\<lparr>bm_title := title\<rparr> else b) L"

definition relocate :: "nat \<Rightarrow> nat \<Rightarrow> bookmark list \<Rightarrow> bookmark list" where
  "relocate i k L =
     (case find (\<lambda>b. bm_id b = i) L of
        None \<Rightarrow> L
      | Some b \<Rightarrow> insert_at k b (filter (\<lambda>c. bm_id c \<noteq> i) L))"

lemma bookmarksUpdate_Inr:
  assumes "bookmarksUpdate f i title s = (Inr x, s')" and "bookmarks s f = Some L"
  shows "bookmarks s' f = Some (retitle i title L) \<and> nextId s' = nextId s"
  using api_Inr [OF assms(1) [unfolded bookmarksUpdate_def]] assms(2)
  by (auto simp: retitle_def split: option.splits if_splits)

lemma bookmarksMove_Inr:
  assumes "bookmarksMove f i k s = (Inr x, s')" and "bookmarks s f = Some L"
  shows "bookmarks s' f = Some (relocate i k L) \<and> nextId s' = nextId s"
  using api_Inr [OF assms(1) [unfolded bookmarksMove_def]] assms(2)
  by (auto simp: relocate_def split: option.splits if_splits)

lemma bookmarksRemove_Inr:
  assumes "bookmarksRemove f i s = (Inr x, s')" and "bookmarks s f = Some L"
  shows "bookmarks s' f = Some (filter (\<lambda>c. bm_id c \<noteq> i) L) \<and> nextId s' = nextId s"
  using api_Inr [OF assms(1) [unfolded bookmarksRemove_def]] assms(2)
  by (auto split: option.splits if_splits)

lemma bind_Inr:
  "bind m g s = (Inr y, s') \<Longrightarrow> \<exists>x s1. m s = (Inr x, s1) \<and> g x s1 = (Inr y, s')"
  by (auto simp: bind_def split: prod.splits sum.splits)

text \<open>The children of the folder after one tab, as a function of the children before.\<close>

definition after_tab :: "(string \<rightharpoonup> nat \<times> bookmark) \<Rightarrow> nat \<Rightarrow> tab \<Rightarrow> nat \<Rightarrow> bookmark list
    \<Rightarrow> bookmark list" where
  "after_tab byUrl k t fresh L =
     (case byUrl (tab_url t) of
        None \<Rightarrow> insert_at k \<lparr>bm_id = fresh, bm_title = tab_title t, bm_url = Some (tab_url t)\<rparr> L
      | Some (i, b) \<Rightarrow>
          (let L1 = (if bm_title b \<noteq> tab_title t then retitle (bm_id b) (tab_title t) L else L)
           in if i \<noteq> k then relocate (bm_id b) k L1 else L1))"

lemma syncTab_Inr:
  assumes "syncTab f byUrl k t s = (Inr sid, s')" and "bookmarks s f = Some L"
  shows "bookmarks s' f = Some (after_tab byUrl k t (nextId s) L)
    \<and> sid = (case byUrl (tab_url t) of None \<Rightarrow> nextId s | Some (i, b) \<Rightarrow> bm_id b)
    \<and> nextId s' = (case byUrl (tab_url t) of None \<Rightarrow> Suc (nextId s) | Some (i, b) \<Rightarrow> nextId s)"
proof (cases "byUrl (tab_url t)")
  case None
  with assms(1) obtain b where "bookmarksCreate f (tab_title t) (tab_url t) k s = (Inr b, s')"
    and "sid = bm_id b"
    by (auto simp: syncTab_def ret_def dest!: bind_Inr)
  with bookmarksCreate_Inr [OF this(1) assms(2)] None show ?thesis
    by (simp add: after_tab_def)
next
  case (Some ib)
  obtain i b where ib: "ib = (i, b)" by (cases ib)
  let ?L1 = "if bm_title b \<noteq> tab_title t then retitle (bm_id b) (tab_title t) L else L"
  from assms(1) Some ib obtain s1 where
    u: "(if bm_title b \<noteq> tab_title t then bookmarksUpdate f (bm_id b) (tab_title t) else ret ()) s
        = (Inr (), s1)"
    and m: "(if i \<noteq> k then bookmarksMove f (bm_id b) k else ret ()) s1 = (Inr (), s')"
    and sid: "sid = bm_id b"
    by (auto simp: syncTab_def ret_def dest!: bind_Inr)
  have s1: "bookmarks s1 f = Some ?L1 \<and> nextId s1 = nextId s"
    using u bookmarksUpdate_Inr [OF _ assms(2)] assms(2)
    by (auto simp: ret_def split: if_splits)
  have "bookmarks s' f = Some (if i \<noteq> k then relocate (bm_id b) k ?L1 else ?L1)
      \<and> nextId s' = nextId s1"
    using m bookmarksMove_Inr [of f "bm_id b" k s1 _ s' ?L1] s1
    by (auto simp: ret_def split: if_splits)
  with s1 sid Some ib show ?thesis by (simp add: after_tab_def Let_def)
qed

lemma removeUnseen_Inr:
  "removeUnseen f seen snap s = (Inr x, s') \<Longrightarrow> bookmarks s f = Some L \<Longrightarrow>
     bookmarks s' f = Some (filter (\<lambda>c. bm_id c \<notin> bm_id ` snd ` set snap \<or> bm_id c \<in> seen) L)"
proof (induction snap arbitrary: s L)
  case Nil
  then show ?case by simp
next
  case (Cons ib snap)
  obtain i b where ib: "ib = (i, b)" by (cases ib)
  show ?case
  proof (cases "bm_id b \<in> seen")
    case True
    with Cons.prems ib have "removeUnseen f seen snap s = (Inr x, s')" by simp
    from Cons.IH [OF this Cons.prems(2)] True ib show ?thesis
      by (auto intro!: filter_cong)
  next
    case False
    with Cons.prems ib obtain s1 where
      r: "bookmarksRemove f (bm_id b) s = (Inr (), s1)"
      and rest: "removeUnseen f seen snap s1 = (Inr x, s')"
      by (auto split: prod.splits sum.splits)
    from bookmarksRemove_Inr [OF r Cons.prems(2)]
    have "bookmarks s1 f = Some (filter (\<lambda>c. bm_id c \<noteq> bm_id b) L)" by simp
    from Cons.IH [OF rest this] False ib show ?thesis
      by (auto intro!: filter_cong)
  qed
qed

section \<open>The URL lookup\<close>

lemma bookmarksByUrl_snoc:
  "bookmarksByUrl (snap @ [(i, b)]) =
     (case bm_url b of
        None \<Rightarrow> bookmarksByUrl snap
      | Some url \<Rightarrow> if url = [] then bookmarksByUrl snap
                     else (bookmarksByUrl snap)(url \<mapsto> (i, b)))"
  by (simp add: bookmarksByUrl_def split: option.splits)

lemma bookmarksByUrl_Some:
  "bookmarksByUrl snap u = Some (i, b) \<Longrightarrow> (i, b) \<in> set snap \<and> bm_url b = Some u \<and> u \<noteq> []"
proof (induction snap rule: rev_induct)
  case Nil
  then show ?case by (simp add: bookmarksByUrl_def)
next
  case (snoc jc snap)
  obtain j c where jc: "jc = (j, c)" by (cases jc)
  from snoc jc show ?case
    by (auto simp: bookmarksByUrl_snoc split: option.splits if_splits)
qed

lemma bookmarksByUrl_None:
  "bookmarksByUrl snap u = None \<Longrightarrow> u \<noteq> [] \<Longrightarrow> (i, b) \<in> set snap \<Longrightarrow> bm_url b \<noteq> Some u"
proof (induction snap rule: rev_induct)
  case Nil
  then show ?case by simp
next
  case (snoc jc snap)
  obtain j c where jc: "jc = (j, c)" by (cases jc)
  from snoc jc show ?case
    by (auto simp: bookmarksByUrl_snoc split: option.splits if_splits)
qed

lemma set_retitle_props:
  "c \<in> set (retitle i title L) \<Longrightarrow> \<exists>c0\<in>set L. bm_id c = bm_id c0 \<and> bm_url c = bm_url c0"
  by (auto simp: retitle_def)

lemma set_insert_at: "set (insert_at k b xs) = insert b (set xs)"
proof -
  have "set (take k xs) \<union> set (drop k xs) = set xs"
    by (metis append_take_drop_id set_append)
  then show ?thesis by (auto simp: insert_at_def)
qed

lemma set_relocate: "set (relocate i k L) \<subseteq> set L"
  by (auto simp: relocate_def set_insert_at find_Some_iff split: option.splits)

section \<open>Which children a pass keeps\<close>

definition tracked :: "bookmark list \<Rightarrow> string set \<Rightarrow> nat set \<Rightarrow> bookmark list \<Rightarrow> bool" where
  "tracked bs G seen L =
     ((\<forall>c\<in>set L. (\<exists>b\<in>set bs. bm_id b = bm_id c \<and> bm_url b = bm_url c)
          \<or> (bm_id c \<notin> bm_id ` set bs \<and> bm_id c \<in> seen \<and> bm_url c \<in> Some ` G))
      \<and> (\<forall>b\<in>set bs. bm_id b \<in> seen \<longrightarrow> bm_url b \<in> Some ` G))"

lemma tracked_after_tab:
  assumes tr: "tracked bs G seen L"
    and fresh: "\<forall>b\<in>set bs. bm_id b < fresh"
    and g: "tab_url t \<in> G"
    and byUrl: "byUrl = bookmarksByUrl (enumerate 0 bs)"
    and dist: "distinct (map bm_id bs)"
  shows "tracked bs G
     (insert (case byUrl (tab_url t) of None \<Rightarrow> fresh | Some (i, b) \<Rightarrow> bm_id b) seen)
     (after_tab byUrl k t fresh L)"
proof (cases "byUrl (tab_url t)")
  case None
  have "fresh \<notin> bm_id ` set bs" using fresh by auto
  with tr None g show ?thesis
    by (auto simp: tracked_def after_tab_def set_insert_at)
next
  case (Some ib)
  obtain i b where ib: "ib = (i, b)" by (cases ib)
  from Some ib byUrl bookmarksByUrl_Some [of "enumerate 0 bs" "tab_url t" i b]
  have b: "b \<in> set bs" "bm_url b = Some (tab_url t)"
    by (auto simp: in_set_enumerate_eq)
  let ?L1 = "if bm_title b \<noteq> tab_title t then retitle (bm_id b) (tab_title t) L else L"
  have sub: "\<forall>c\<in>set (after_tab byUrl k t fresh L). \<exists>c0\<in>set L. bm_id c = bm_id c0 \<and> bm_url c = bm_url c0"
  proof
    fix c assume "c \<in> set (after_tab byUrl k t fresh L)"
    with Some ib have "c \<in> set ?L1"
      using set_relocate [of "bm_id b" k ?L1]
      by (auto simp: after_tab_def Let_def split: if_splits)
    then show "\<exists>c0\<in>set L. bm_id c = bm_id c0 \<and> bm_url c = bm_url c0"
      using set_retitle_props [of c "bm_id b" "tab_title t" L]
      by (auto split: if_splits)
  qed
  show ?thesis
    unfolding tracked_def
  proof (intro conjI ballI impI)
    fix c assume "c \<in> set (after_tab byUrl k t fresh L)"
    with sub obtain c0 where c0: "c0 \<in> set L" "bm_id c = bm_id c0" "bm_url c = bm_url c0"
      by blast
    with tr show "(\<exists>b\<in>set bs. bm_id b = bm_id c \<and> bm_url b = bm_url c)
        \<or> (bm_id c \<notin> bm_id ` set bs
            \<and> bm_id c \<in> insert (case byUrl (tab_url t) of None \<Rightarrow> fresh | Some (i, b) \<Rightarrow> bm_id b) seen
            \<and> bm_url c \<in> Some ` G)"
      unfolding tracked_def by (metis insertCI)
  next
    fix b' assume "b' \<in> set bs"
      and "bm_id b' \<in> insert (case byUrl (tab_url t) of None \<Rightarrow> fresh | Some (i, b) \<Rightarrow> bm_id b) seen"
    moreover have "b' = b" if "bm_id b' = bm_id b"
      using that dist b(1) \<open>b' \<in> set bs\<close> by (auto simp: distinct_map inj_on_def)
    ultimately show "bm_url b' \<in> Some ` G"
      using tr Some ib b g by (auto simp: tracked_def)
  qed
qed


lemma tabLoop_tracked:
  assumes "tabLoop f byUrl ts k seen pinned s = (Inr (seen', pinned'), s')"
    and "bookmarks s f = Some L"
    and "tracked bs G seen L"
    and "\<forall>b\<in>set bs. bm_id b < nextId s"
    and "\<forall>t\<in>set ts. \<not> excluded (tab_url t) \<longrightarrow> tab_url t \<in> G"
    and "byUrl = bookmarksByUrl (enumerate 0 bs)"
    and "distinct (map bm_id bs)"
  shows "\<exists>L'. bookmarks s' f = Some L' \<and> tracked bs G seen' L'"
  using assms
proof (induction ts arbitrary: k seen pinned s L)
  case Nil
  then show ?case by simp
next
  case (Cons t ts)
  show ?case
  proof (cases "excluded (tab_url t)")
    case True
    with Cons.prems(1) have "tabLoop f byUrl ts k seen pinned s = (Inr (seen', pinned'), s')"
      by simp
    from Cons.IH [OF this Cons.prems(2,3,4) _ Cons.prems(6,7)] Cons.prems(5)
    show ?thesis by simp
  next
    case False
    with Cons.prems(1) obtain sid s1 where
      st: "syncTab f byUrl k t s = (Inr sid, s1)"
      and rest: "tabLoop f byUrl ts (Suc k) (insert sid seen)
          (if tab_pinned t then insert (tab_url t) pinned else pinned) s1
        = (Inr (seen', pinned'), s')"
      by (auto simp: Let_def split: prod.splits sum.splits)
    from syncTab_Inr [OF st Cons.prems(2)] have
      L1: "bookmarks s1 f = Some (after_tab byUrl k t (nextId s) L)"
      and sid: "sid = (case byUrl (tab_url t) of None \<Rightarrow> nextId s | Some (i, b) \<Rightarrow> bm_id b)"
      and n: "nextId s \<le> nextId s1"
      by (auto split: option.splits)
    from False Cons.prems(5) have g: "tab_url t \<in> G" by simp
    have tr: "tracked bs G (insert sid seen) (after_tab byUrl k t (nextId s) L)"
      unfolding sid
      by (rule tracked_after_tab [OF Cons.prems(3,4) g Cons.prems(6,7)])
    have fresh: "\<forall>b\<in>set bs. bm_id b < nextId s1"
      using Cons.prems(4) n by auto
    from Cons.IH [OF rest L1 tr fresh _ Cons.prems(6,7)] Cons.prems(5)
    show ?thesis by simp
  qed
qed

lemma modify_Inr: "modify g s = (Inr x, s') \<Longrightarrow> s' = g s"
  by (simp add: modify_def)

lemma savePinnedTabs_Inr:
  assumes "savePinnedTabs s = (Inr x, s')"
  shows "s' = s\<lparr>calls := Suc (calls s), stored_pinned := pinnedTabsByFolder s\<rparr>"
  using api_Inr [OF assms [unfolded savePinnedTabs_def]] by auto

lemma release_fields:
  "bookmarks (fst (release s)) = bookmarks s"
  "pinnedTabsByFolder (fst (release s)) = pinnedTabsByFolder s"
  "stored_pinned (fst (release s)) = stored_pinned s"
  "windows (fst (release s)) = windows s"
  "nextId (fst (release s)) = nextId s"
  by (simp_all add: release_def Let_def split: list.splits)

text \<open>A completed tab-to-bookmark pass, step by step.\<close>

lemma tabsToBookmarks_completed:
  assumes m: "map_of (windowMappings s) w = Some m"
    and idle: "\<not> isSyncing s"
    and run: "syncTabsToBookmarks w s = (Inr (), s', d)"
    and bs: "bookmarks s (folderId m) = Some bs"
    and ts: "windows s w = Some ts"
  obtains s1 s2 s3 seen pinned where
    "bookmarks s1 (folderId m) = Some bs" "nextId s1 = nextId s"
    "tabLoop (folderId m) (bookmarksByUrl (enumerate 0 bs)) ts 0 {} {} s1 = (Inr (seen, pinned), s2)"
    "removeUnseen (folderId m) seen (enumerate 0 bs) s2 = (Inr (), s3)"
    "bookmarks s' = bookmarks s3"
    "pinnedTabsByFolder s' = (pinnedTabsByFolder s3)(folderId m \<mapsto> pinned)"
    "stored_pinned s' = pinnedTabsByFolder s'"
proof -
  let ?f = "folderId m"
  let ?s0 = "s\<lparr>isSyncing := True\<rparr>"
  from run m idle obtain sb where
    body: "tabsToBookmarks_body w ?f ?s0 = (Inr (), sb)" and s': "s' = fst (release sb)"
    by (auto simp: syncTabsToBookmarks_def enter_def try_finally_def split: prod.splits)
  from body [unfolded tabsToBookmarks_body_def] obtain tabs sa snap s1 seen pinned s2 s3 s4 where
    q: "tabsQuery w ?s0 = (Inr tabs, sa)"
    and g: "bookmarksGetSubTree ?f sa = (Inr snap, s1)"
    and l: "tabLoop ?f (bookmarksByUrl snap) (map snd tabs) 0 {} {} s1 = (Inr (seen, pinned), s2)"
    and ru: "removeUnseen ?f seen snap s2 = (Inr (), s3)"
    and mo: "modify (\<lambda>s. s\<lparr>pinnedTabsByFolder := (pinnedTabsByFolder s)(?f \<mapsto> pinned)\<rparr>) s3 = (Inr (), s4)"
    and sv: "savePinnedTabs s4 = (Inr (), sb)"
    by (auto dest!: bind_Inr)
  from tabsQuery_Inr [OF q] ts have tabs: "map snd tabs = ts" and sa: "sa = ?s0\<lparr>calls := Suc (calls ?s0)\<rparr>"
    by (simp_all add: map_snd_enumerate)
  from bookmarksGetSubTree_Inr [OF g] bs sa have snap: "snap = enumerate 0 bs"
    and s1: "bookmarks s1 ?f = Some bs" "nextId s1 = nextId s"
    by auto
  from modify_Inr [OF mo] savePinnedTabs_Inr [OF sv] s'
  have "bookmarks s' = bookmarks s3"
    "pinnedTabsByFolder s' = (pinnedTabsByFolder s3)(?f \<mapsto> pinned)"
    "stored_pinned s' = pinnedTabsByFolder s'"
    by (simp_all add: release_fields)
  with that [OF s1] l ru snap tabs show ?thesis by simp
qed

lemma trackedD1:
  "tracked bs G seen L \<Longrightarrow> c \<in> set L \<Longrightarrow>
     (\<exists>b\<in>set bs. bm_id b = bm_id c \<and> bm_url b = bm_url c)
     \<or> (bm_id c \<notin> bm_id ` set bs \<and> bm_id c \<in> seen \<and> bm_url c \<in> Some ` G)"
  by (simp add: tracked_def)

lemma trackedD2:
  "tracked bs G seen L \<Longrightarrow> b \<in> set bs \<Longrightarrow> bm_id b \<in> seen \<Longrightarrow> bm_url b \<in> Some ` G"
  by (simp add: tracked_def)

text \<open>
  C10. After a completed tab-to-bookmark pass over a folder whose children have distinct
  ids below the id supply, every child left in the folder carries the URL of a tab of the
  window that the pass did not skip, and every child the folder had whose URL is the URL
  of no such tab is gone: that includes the children without a URL (subfolders,
  separators), which never enter the lookup and are never marked as seen.
\<close>

theorem unmatched_children_removed:
  assumes "map_of (windowMappings s) w = Some m"
    and "\<not> isSyncing s"
    and "syncTabsToBookmarks w s = (Inr (), s', d)"
    and "bookmarks s (folderId m) = Some bs"
    and "windows s w = Some ts"
    and "distinct (map bm_id bs)"
    and "\<forall>b\<in>set bs. bm_id b < nextId s"
  shows "\<exists>cs. bookmarks s' (folderId m) = Some cs
     \<and> (\<forall>c\<in>set cs. \<exists>t\<in>set ts. \<not> excluded (tab_url t) \<and> bm_url c = Some (tab_url t))
     \<and> (\<forall>b\<in>set bs. (\<forall>t\<in>set ts. excluded (tab_url t) \<or> bm_url b \<noteq> Some (tab_url t))
            \<longrightarrow> bm_id b \<notin> bm_id ` set cs)"
proof -
  let ?f = "folderId m"
  let ?G = "{tab_url t |t. t \<in> set ts \<and> \<not> excluded (tab_url t)}"
  obtain s1 s2 s3 seen pinned where
    s1: "bookmarks s1 ?f = Some bs" "nextId s1 = nextId s"
    and l: "tabLoop ?f (bookmarksByUrl (enumerate 0 bs)) ts 0 {} {} s1 = (Inr (seen, pinned), s2)"
    and ru: "removeUnseen ?f seen (enumerate 0 bs) s2 = (Inr (), s3)"
    and fin: "bookmarks s' = bookmarks s3"
    by (rule tabsToBookmarks_completed [OF assms(1-5)])
  have tr0: "tracked bs ?G {} bs"
    by (auto simp: tracked_def)
  have fresh: "\<forall>b\<in>set bs. bm_id b < nextId s1"
    using assms(7) s1(2) by simp
  have inG: "\<forall>t\<in>set ts. \<not> excluded (tab_url t) \<longrightarrow> tab_url t \<in> ?G"
    by auto
  from tabLoop_tracked [OF l s1(1) tr0 fresh inG refl assms(6)]
  obtain L where L: "bookmarks s2 ?f = Some L" and tr: "tracked bs ?G seen L"
    by auto
  let ?cs = "filter (\<lambda>c. bm_id c \<notin> bm_id ` snd ` set (enumerate 0 bs) \<or> bm_id c \<in> seen) L"
  have ids: "bm_id ` snd ` set (enumerate 0 bs) = bm_id ` set bs"
    by (metis list.set_map map_snd_enumerate)
  from removeUnseen_Inr [OF ru L] fin have cs: "bookmarks s' ?f = Some ?cs" by simp
  have good: "\<exists>t\<in>set ts. \<not> excluded (tab_url t) \<and> bm_url c = Some (tab_url t)"
    if c: "c \<in> set ?cs" for c
  proof -
    from c have cL: "c \<in> set L" and keep: "bm_id c \<notin> bm_id ` set bs \<or> bm_id c \<in> seen"
      unfolding ids by auto
    have "(\<exists>b\<in>set bs. bm_id b = bm_id c \<and> bm_url b = bm_url c)
        \<or> (bm_id c \<notin> bm_id ` set bs \<and> bm_id c \<in> seen \<and> bm_url c \<in> Some ` ?G)"
      by (rule trackedD1 [OF tr cL])
    then have "bm_url c \<in> Some ` ?G"
    proof
      assume "\<exists>b\<in>set bs. bm_id b = bm_id c \<and> bm_url b = bm_url c"
      then obtain b where b: "b \<in> set bs" "bm_id b = bm_id c" "bm_url b = bm_url c" by blast
      from b(1) have "bm_id b \<in> bm_id ` set bs" by (rule imageI)
      with keep b(2) have "bm_id b \<in> seen" by simp
      from trackedD2 [OF tr b(1) this] b(3) show ?thesis by simp
    next
      assume "bm_id c \<notin> bm_id ` set bs \<and> bm_id c \<in> seen \<and> bm_url c \<in> Some ` ?G"
      then show ?thesis by simp
    qed
    then show ?thesis by auto
  qed
  have gone: "bm_id b \<notin> bm_id ` set ?cs"
    if b: "b \<in> set bs" and un: "\<forall>t\<in>set ts. excluded (tab_url t) \<or> bm_url b \<noteq> Some (tab_url t)"
    for b
  proof
    assume "bm_id b \<in> bm_id ` set ?cs"
    then obtain c where c: "c \<in> set ?cs" "bm_id b = bm_id c" by auto
    from b have "bm_id b \<in> bm_id ` set bs" by (rule imageI)
    with c have "bm_id b \<in> seen" unfolding ids by simp
    from trackedD2 [OF tr b this] have "bm_url b \<in> Some ` ?G" .
    then obtain t where "t \<in> set ts" "\<not> excluded (tab_url t)" "bm_url b = Some (tab_url t)"
      by auto
    with un show False by blast
  qed
  show ?thesis
  proof (intro exI conjI ballI impI)
    show "bookmarks s' ?f = Some ?cs" by (rule cs)
  next
    fix c assume "c \<in> set ?cs"
    then show "\<exists>t\<in>set ts. \<not> excluded (tab_url t) \<and> bm_url c = Some (tab_url t)"
      by (rule good)
  next
    fix b assume "b \<in> set bs"
      and "\<forall>t\<in>set ts. excluded (tab_url t) \<or> bm_url b \<noteq> Some (tab_url t)"
    then show "bm_id b \<notin> bm_id ` set ?cs" by (rule gone)
  qed
qed

definition cluttered :: state where
  "cluttered = demo\<lparr>windows := [1 \<mapsto> [page 1 ''https://a.example/'']],
     bookmarks := [10 \<mapsto> [\<lparr>bm_id = 5, bm_title = ''Old'', bm_url = None\<rparr>,
                           entry 6 ''https://b.example/'', entry 7 ''https://a.example/'']]\<rparr>"

theorem unmatched_children_removed_witness:
  "fst (syncTabsToBookmarks 1 cluttered) = Inr ()
   \<and> bookmarks (fst (snd (syncTabsToBookmarks 1 cluttered))) 10
       = Some [entry 7 ''https://a.example/'']"
proof -
  let ?r = "syncTabsToBookmarks 1 cluttered"
  have r: "fst ?r = Inr ()"
    by (simp add: cluttered_def example_defs model_defs)
  then have run: "?r = (Inr (), fst (snd ?r), snd (snd ?r))"
    by (cases ?r) simp
  have m: "map_of (windowMappings cluttered) 1 = Some \<lparr>folderId = 10, folderTitle = ''Work''\<rparr>"
    and idle: "\<not> isSyncing cluttered"
    and bs: "bookmarks cluttered (folderId \<lparr>folderId = 10, folderTitle = ''Work''\<rparr>)
        = Some [\<lparr>bm_id = 5, bm_title = ''Old'', bm_url = None\<rparr>,
                entry 6 ''https://b.example/'', entry 7 ''https://a.example/'']"
    and ts: "windows cluttered 1 = Some [page 1 ''https://a.example/'']"
    by (simp_all add: cluttered_def example_defs)
  have d: "distinct (map bm_id [\<lparr>bm_id = 5, bm_title = ''Old'', bm_url = None\<rparr>,
                entry 6 ''https://b.example/'', entry 7 ''https://a.example/''])"
    and fr: "\<forall>b\<in>set [\<lparr>bm_id = 5, bm_title = ''Old'', bm_url = None\<rparr>,
                entry 6 ''https://b.example/'', entry 7 ''https://a.example/'']. bm_id b < nextId cluttered"
    by (simp_all add: cluttered_def example_defs)
  from unmatched_children_removed [OF m idle run bs ts d fr]
  show ?thesis
    by (simp add: cluttered_def example_defs model_defs)
qed

section \<open>Where the code departs from the documented behaviour\<close>

definition twins :: state where
  "twins = demo\<lparr>windows := [1 \<mapsto> [page 1 ''https://a.example/'', page 2 ''https://a.example/'']]\<rparr>"

text \<open>
  C2. Two tabs with the same URL and a folder that holds no entry for it: the lookup is
  built once from the snapshot and is not told of the entry created for the first tab,
  so the pass creates a second entry for the second tab.
\<close>

theorem duplicate_tabs_make_two_entries:
  "fst (syncTabsToBookmarks 1 twins) = Inr ()
   \<and> map bm_url (the (bookmarks (fst (snd (syncTabsToBookmarks 1 twins))) 10))
       = [Some ''https://a.example/'', Some ''https://a.example/'']"
  by (simp add: twins_def example_defs model_defs)

definition with_special :: state where
  "with_special = demo\<lparr>windows := [1 \<mapsto> [page 1 ''https://a.example/'']],
     bookmarks := [10 \<mapsto> [entry 5 ''about:blank'', entry 6 ''https://a.example/'']]\<rparr>"

text \<open>
  C3. A folder with an \<^verbatim>\<open>about:\<close> entry in front of an ordinary one: the
  bookmark-to-tab pass only skips children without URL, finds no tab for the special
  entry (the tab lookup leaves special pages out) and opens one, at position \<open>0\<close>;
  \<^verbatim>\<open>openFolderAsNewWindow\<close> filters the same entry out.
\<close>

theorem special_bookmark_becomes_tab:
  "fst (syncBookmarksToTabs 10 with_special) = Inr ()
   \<and> map tab_url (the (windows (fst (snd (syncBookmarksToTabs 10 with_special))) 1))
       = [''about:blank'', ''https://a.example/'']
   \<and> urlBookmarks (enumerate 0 (the (bookmarks with_special 10))) = [''https://a.example/'']"
  by (simp add: with_special_def example_defs model_defs)


section \<open>The order of the children after a pass\<close>

text \<open>
  The pass compares the target index of a tab with the index its bookmark had in the
  snapshot, not with the index the bookmark has by then. \<open>settled\<close> says of the tabs
  and the snapshot that this makes no difference: whenever a tab's bookmark has the
  snapshot index \<open>k\<close> that is also the tab's target, the \<open>k\<close> children in front of it
  in the snapshot are the bookmarks of tabs handled before. \<open>seen\<close> holds the ids of the
  snapshot's bookmarks that were found for the tabs so far.
\<close>

fun settled :: "(string \<rightharpoonup> nat \<times> bookmark) \<Rightarrow> bookmark list \<Rightarrow> tab list \<Rightarrow> nat \<Rightarrow> nat set \<Rightarrow> bool"
  where
  "settled byUrl bs [] k seen = True"
| "settled byUrl bs (t # ts) k seen =
     (if excluded (tab_url t) then settled byUrl bs ts k seen
      else case byUrl (tab_url t) of
             None \<Rightarrow> settled byUrl bs ts (Suc k) seen
           | Some (i, b) \<Rightarrow>
               (i = k \<longrightarrow> bm_id ` set (take k bs) \<subseteq> seen)
               \<and> settled byUrl bs ts (Suc k) (insert (bm_id b) seen))"

lemma settled_fresh:
  "x \<notin> bm_id ` set bs \<Longrightarrow> settled byUrl bs ts k (insert x seen) = settled byUrl bs ts k seen"
proof (induction ts arbitrary: k seen)
  case Nil
  show ?case by simp
next
  case (Cons t ts)
  have sub: "bm_id ` set (take k bs) \<subseteq> insert x seen \<longleftrightarrow> bm_id ` set (take k bs) \<subseteq> seen" for k seen
    using Cons.prems by (auto dest: in_set_takeD)
  show ?case
    using Cons.IH [OF Cons.prems] sub
    by (auto simp: insert_commute [of _ x] split: option.splits)
qed

lemma retitle_other: "i \<notin> bm_id ` set xs \<Longrightarrow> retitle i title xs = xs"
  by (induction xs) (auto simp: retitle_def)

lemma retitle_append: "retitle i title (xs @ ys) = retitle i title xs @ retitle i title ys"
  by (simp add: retitle_def)

lemma filter_other: "i \<notin> bm_id ` set xs \<Longrightarrow> filter (\<lambda>c. bm_id c \<noteq> i) xs = xs"
  by (induction xs) auto

lemma find_other: "i \<notin> bm_id ` set xs \<Longrightarrow> find (\<lambda>c. bm_id c = i) (xs @ ys) = find (\<lambda>c. bm_id c = i) ys"
  by (induction xs) auto

lemma relocate_middle:
  assumes "bm_id b \<notin> bm_id ` set P" "bm_id b \<notin> bm_id ` set U1" "bm_id b \<notin> bm_id ` set U2"
  shows "relocate (bm_id b) (length P) (P @ U1 @ b # U2) = P @ b # U1 @ U2"
proof -
  have "find (\<lambda>c. bm_id c = bm_id b) (P @ U1 @ b # U2) = Some b"
    using assms by (simp add: find_other)
  moreover have "filter (\<lambda>c. bm_id c \<noteq> bm_id b) (P @ U1 @ b # U2) = P @ U1 @ U2"
    using assms by (simp add: filter_other)
  ultimately show ?thesis by (simp add: relocate_def insert_at_def)
qed

lemma unseen_split:
  assumes dist: "distinct (map bm_id bs)" and i: "i < length bs" and b: "bm_id (bs ! i) \<notin> seen"
  shows "filter (\<lambda>c. bm_id c \<notin> seen) bs
      = filter (\<lambda>c. bm_id c \<notin> seen) (take i bs) @ bs ! i # filter (\<lambda>c. bm_id c \<notin> seen) (drop (Suc i) bs)"
    and "filter (\<lambda>c. bm_id c \<notin> insert (bm_id (bs ! i)) seen) bs
      = filter (\<lambda>c. bm_id c \<notin> seen) (take i bs) @ filter (\<lambda>c. bm_id c \<notin> seen) (drop (Suc i) bs)"
    and "bm_id (bs ! i) \<notin> bm_id ` set (take i bs)"
    and "bm_id (bs ! i) \<notin> bm_id ` set (drop (Suc i) bs)"
proof -
  have split: "bs = take i bs @ bs ! i # drop (Suc i) bs"
    using i by (rule id_take_nth_drop)
  from dist have "distinct (map bm_id (take i bs @ bs ! i # drop (Suc i) bs))"
    using split by simp
  then show notin1: "bm_id (bs ! i) \<notin> bm_id ` set (take i bs)"
    and notin2: "bm_id (bs ! i) \<notin> bm_id ` set (drop (Suc i) bs)"
    by auto
  have "filter (\<lambda>c. bm_id c \<notin> seen) bs
      = filter (\<lambda>c. bm_id c \<notin> seen) (take i bs @ bs ! i # drop (Suc i) bs)"
    using split by simp
  then show "filter (\<lambda>c. bm_id c \<notin> seen) bs
      = filter (\<lambda>c. bm_id c \<notin> seen) (take i bs) @ bs ! i # filter (\<lambda>c. bm_id c \<notin> seen) (drop (Suc i) bs)"
    using b by simp
  have same: "filter (\<lambda>c. bm_id c \<notin> insert (bm_id (bs ! i)) seen) xs = filter (\<lambda>c. bm_id c \<notin> seen) xs"
    if "bm_id (bs ! i) \<notin> bm_id ` set xs" for xs
    using that by (induction xs) auto
  have "filter (\<lambda>c. bm_id c \<notin> insert (bm_id (bs ! i)) seen) bs
      = filter (\<lambda>c. bm_id c \<notin> insert (bm_id (bs ! i)) seen) (take i bs @ bs ! i # drop (Suc i) bs)"
    using split by simp
  then show "filter (\<lambda>c. bm_id c \<notin> insert (bm_id (bs ! i)) seen) bs
      = filter (\<lambda>c. bm_id c \<notin> seen) (take i bs) @ filter (\<lambda>c. bm_id c \<notin> seen) (drop (Suc i) bs)"
    using same [OF notin1] same [OF notin2] by simp
qed

lemma retitle_Cons:
  "retitle i title (c # xs) = (if bm_id c = i then c\<lparr>bm_title := title\<rparr> else c) # retitle i title xs"
  by (simp add: retitle_def)

lemma after_tab_created:
  assumes "byUrl (tab_url t) = None" and "length P = k" and "fresh \<notin> bm_id ` set bs"
  shows "after_tab byUrl k t fresh (P @ filter (\<lambda>c. bm_id c \<notin> seen) bs)
     = (P @ [\<lparr>bm_id = fresh, bm_title = tab_title t, bm_url = Some (tab_url t)\<rparr>])
       @ filter (\<lambda>c. bm_id c \<notin> insert fresh seen) bs"
proof -
  have "filter (\<lambda>c. bm_id c \<notin> insert fresh seen) bs = filter (\<lambda>c. bm_id c \<notin> seen) bs"
    using assms(3) by (intro filter_cong) auto
  with assms(1,2) show ?thesis
    by (simp add: after_tab_def insert_at_def)
qed

lemma after_tab_matched:
  assumes byUrl: "byUrl (tab_url t) = Some (i, b)"
    and dist: "distinct (map bm_id bs)"
    and i: "i < length bs" and b: "bs ! i = b"
    and unseen: "bm_id b \<notin> seen"
    and P: "\<forall>c\<in>set P. bm_id c \<in> seen"
    and len: "length P = k"
    and inplace: "i = k \<longrightarrow> bm_id ` set (take k bs) \<subseteq> seen"
  shows "after_tab byUrl k t fresh (P @ filter (\<lambda>c. bm_id c \<notin> seen) bs)
     = (P @ [b\<lparr>bm_title := tab_title t\<rparr>]) @ filter (\<lambda>c. bm_id c \<notin> insert (bm_id b) seen) bs"
proof -
  let ?U1 = "filter (\<lambda>c. bm_id c \<notin> seen) (take i bs)"
  let ?U2 = "filter (\<lambda>c. bm_id c \<notin> seen) (drop (Suc i) bs)"
  let ?b' = "b\<lparr>bm_title := tab_title t\<rparr>"
  from unseen b have un: "bm_id (bs ! i) \<notin> seen" by simp
  note sp = unseen_split [OF dist i un, unfolded b]
  have nP: "bm_id b \<notin> bm_id ` set P" using P unseen by auto
  have n1: "bm_id b \<notin> bm_id ` set ?U1" using sp(3) by auto
  have n2: "bm_id b \<notin> bm_id ` set ?U2" using sp(4) by auto
  have L: "P @ filter (\<lambda>c. bm_id c \<notin> seen) bs = P @ ?U1 @ b # ?U2"
    using sp(1) by simp
  have ret: "retitle (bm_id b) (tab_title t) (P @ ?U1 @ b # ?U2) = P @ ?U1 @ ?b' # ?U2"
    using nP n1 n2 retitle_other [of "bm_id b" ?U2 "tab_title t"]
    by (simp add: retitle_append retitle_other retitle_Cons)
  have same: "?b' = b" if "bm_title b = tab_title t"
    using that by simp
  have L1: "(if bm_title b \<noteq> tab_title t
             then retitle (bm_id b) (tab_title t) (P @ ?U1 @ b # ?U2) else P @ ?U1 @ b # ?U2)
      = P @ ?U1 @ ?b' # ?U2"
    using ret same by auto
  have mv: "relocate (bm_id b) k (P @ ?U1 @ ?b' # ?U2) = P @ ?b' # ?U1 @ ?U2"
    using relocate_middle [of ?b' P ?U1 ?U2] nP n1 n2 len by simp
  have stay: "?U1 = []" if "i = k"
    using that inplace by (auto simp: filter_empty_conv)
  have "after_tab byUrl k t fresh (P @ ?U1 @ b # ?U2)
      = (if i \<noteq> k then relocate (bm_id b) k (P @ ?U1 @ ?b' # ?U2) else P @ ?U1 @ ?b' # ?U2)"
    unfolding after_tab_def byUrl by (simp only: option.case prod.case Let_def L1)
  also have "\<dots> = P @ ?b' # ?U1 @ ?U2"
  proof (cases "i = k")
    case True
    from stay [OF True] have "P @ ?U1 @ ?b' # ?U2 = P @ ?b' # ?U1 @ ?U2" by simp
    with True show ?thesis by simp
  next
    case False
    with mv show ?thesis by simp
  qed
  finally have "after_tab byUrl k t fresh (P @ ?U1 @ b # ?U2) = P @ ?b' # ?U1 @ ?U2" .
  with L sp(2) show ?thesis by simp
qed

definition bm_key :: "bookmark \<Rightarrow> string option \<times> string" where
  "bm_key c = (bm_url c, bm_title c)"

definition tab_key :: "tab \<Rightarrow> string option \<times> string" where
  "tab_key t = (Some (tab_url t), tab_title t)"

lemma tabLoop_ordered:
  assumes "tabLoop f byUrl ts k seen pinned s = (Inr (seen', pinned'), s')"
    and "bookmarks s f = Some (P @ filter (\<lambda>c. bm_id c \<notin> seen) bs)"
    and "length P = k"
    and "\<forall>c\<in>set P. bm_id c \<in> seen"
    and "byUrl = bookmarksByUrl (enumerate 0 bs)"
    and "distinct (map bm_id bs)"
    and "\<forall>b\<in>set bs. bm_id b < nextId s"
    and "distinct (map tab_url (filter (\<lambda>t. \<not> excluded (tab_url t)) ts))"
    and "\<forall>t\<in>set ts. \<forall>i b. byUrl (tab_url t) = Some (i, b) \<longrightarrow> bm_id b \<notin> seen"
    and "settled byUrl bs ts k seen"
  shows "\<exists>P'. bookmarks s' f = Some (P @ P' @ filter (\<lambda>c. bm_id c \<notin> seen') bs)
     \<and> map bm_key P' = map tab_key (filter (\<lambda>t. \<not> excluded (tab_url t)) ts)
     \<and> (\<forall>c\<in>set (P @ P'). bm_id c \<in> seen')"
  using assms
proof (induction ts arbitrary: k seen pinned s P)
  case Nil
  then show ?case by simp
next
  case (Cons t ts)
  show ?case
  proof (cases "excluded (tab_url t)")
    case True
    with Cons.prems(1) have run: "tabLoop f byUrl ts k seen pinned s = (Inr (seen', pinned'), s')"
      by simp
    from True Cons.prems(8) have d: "distinct (map tab_url (filter (\<lambda>t. \<not> excluded (tab_url t)) ts))"
      by simp
    from Cons.prems(9) have u: "\<forall>t\<in>set ts. \<forall>i b. byUrl (tab_url t) = Some (i, b) \<longrightarrow> bm_id b \<notin> seen"
      by simp
    from True Cons.prems(10) have st: "settled byUrl bs ts k seen" by simp
    from Cons.IH [OF run Cons.prems(2-7) d u st] True show ?thesis by simp
  next
    case False
    with Cons.prems(1) obtain sid s1 where
      st: "syncTab f byUrl k t s = (Inr sid, s1)"
      and rest: "tabLoop f byUrl ts (Suc k) (insert sid seen)
          (if tab_pinned t then insert (tab_url t) pinned else pinned) s1
        = (Inr (seen', pinned'), s')"
      by (auto simp: Let_def split: prod.splits sum.splits)
    note step = syncTab_Inr [OF st Cons.prems(2)]
    from False Cons.prems(8) have d: "distinct (map tab_url (filter (\<lambda>t. \<not> excluded (tab_url t)) ts))"
      and nin: "tab_url t \<notin> tab_url ` set (filter (\<lambda>t. \<not> excluded (tab_url t)) ts)"
      by simp_all
    have fresh_url: "tab_url t' \<noteq> tab_url t" if "t' \<in> set ts" "\<not> excluded (tab_url t')" for t'
    proof
      assume "tab_url t' = tab_url t"
      moreover from that have "tab_url t' \<in> tab_url ` set (filter (\<lambda>t. \<not> excluded (tab_url t)) ts)"
        by simp
      ultimately show False using nin by simp
    qed
    show ?thesis
    proof (cases "byUrl (tab_url t)")
      case None
      let ?new = "\<lparr>bm_id = nextId s, bm_title = tab_title t, bm_url = Some (tab_url t)\<rparr>"
      have fr: "nextId s \<notin> bm_id ` set bs" using Cons.prems(7) by auto
      from step None have sid: "sid = nextId s" and n1: "nextId s1 = Suc (nextId s)"
        and L1: "bookmarks s1 f = Some ((P @ [?new]) @ filter (\<lambda>c. bm_id c \<notin> insert sid seen) bs)"
        using after_tab_created [of byUrl t P k "nextId s" bs seen, OF None Cons.prems(3) fr]
        by simp_all
      have len: "length (P @ [?new]) = Suc k" using Cons.prems(3) by simp
      have Ps: "\<forall>c\<in>set (P @ [?new]). bm_id c \<in> insert sid seen"
        using Cons.prems(4) sid by auto
      have fresh: "\<forall>b\<in>set bs. bm_id b < nextId s1" using Cons.prems(7) n1 by auto
      have u: "\<forall>t\<in>set ts. \<forall>i b. byUrl (tab_url t) = Some (i, b) \<longrightarrow> bm_id b \<notin> insert sid seen"
      proof (intro ballI allI impI)
        fix t' i b assume "t' \<in> set ts" and m: "byUrl (tab_url t') = Some (i, b)"
        with Cons.prems(9) have "bm_id b \<notin> seen" by auto
        moreover from m Cons.prems(5) bookmarksByUrl_Some [of "enumerate 0 bs" "tab_url t'" i b]
        have "b \<in> set bs" by (auto simp: in_set_enumerate_eq)
        then have "bm_id b \<in> bm_id ` set bs" by (rule imageI)
        with fr sid have "bm_id b \<noteq> sid" by metis
        ultimately show "bm_id b \<notin> insert sid seen" by simp
      qed
      have se: "settled byUrl bs ts (Suc k) (insert sid seen)"
        using Cons.prems(10) False None sid settled_fresh [OF fr] by simp
      from Cons.IH [OF rest L1 len Ps Cons.prems(5,6) fresh d u se]
      obtain P' where
        "bookmarks s' f = Some ((P @ [?new]) @ P' @ filter (\<lambda>c. bm_id c \<notin> seen') bs)"
        "map bm_key P' = map tab_key (filter (\<lambda>t. \<not> excluded (tab_url t)) ts)"
        "\<forall>c\<in>set ((P @ [?new]) @ P'). bm_id c \<in> seen'"
        by blast
      moreover have "bm_key ?new = tab_key t" by (simp add: bm_key_def tab_key_def)
      ultimately show ?thesis using False
        by (intro exI [of _ "?new # P'"]) simp
    next
      case (Some ib)
      obtain i b where ib: "ib = (i, b)" by (cases ib)
      with Some have m: "byUrl (tab_url t) = Some (i, b)" by simp
      let ?b' = "b\<lparr>bm_title := tab_title t\<rparr>"
      from m Cons.prems(5) bookmarksByUrl_Some [of "enumerate 0 bs" "tab_url t" i b]
      have i: "i < length bs" and b: "bs ! i = b" and url: "bm_url b = Some (tab_url t)"
        by (auto simp: in_set_enumerate_eq)
      from Cons.prems(9) m have unseen: "bm_id b \<notin> seen" by auto
      from Cons.prems(10) False m have inplace: "i = k \<longrightarrow> bm_id ` set (take k bs) \<subseteq> seen"
        and se: "settled byUrl bs ts (Suc k) (insert (bm_id b) seen)"
        by simp_all
      from step m have sid: "sid = bm_id b" and n1: "nextId s1 = nextId s"
        and L1: "bookmarks s1 f = Some ((P @ [?b']) @ filter (\<lambda>c. bm_id c \<notin> insert sid seen) bs)"
        using after_tab_matched [of byUrl t i b bs seen P k "nextId s",
            OF m Cons.prems(6) i b unseen Cons.prems(4,3) inplace]
        by simp_all
      have len: "length (P @ [?b']) = Suc k" using Cons.prems(3) by simp
      have Ps: "\<forall>c\<in>set (P @ [?b']). bm_id c \<in> insert sid seen"
        using Cons.prems(4) sid by auto
      have fresh: "\<forall>b\<in>set bs. bm_id b < nextId s1" using Cons.prems(7) n1 by auto
      have bin: "b \<in> set bs" using i b by auto
      have u: "\<forall>t\<in>set ts. \<forall>i b. byUrl (tab_url t) = Some (i, b) \<longrightarrow> bm_id b \<notin> insert sid seen"
      proof (intro ballI allI impI)
        fix t' i' b' assume t': "t' \<in> set ts" and m': "byUrl (tab_url t') = Some (i', b')"
        with Cons.prems(9) have "bm_id b' \<notin> seen" by auto
        moreover from m' Cons.prems(5) bookmarksByUrl_Some [of "enumerate 0 bs" "tab_url t'" i' b']
        have b': "b' \<in> set bs" "bm_url b' = Some (tab_url t')" "tab_url t' \<noteq> []"
          by (auto simp: in_set_enumerate_eq)
        have "bm_id b' \<noteq> bm_id b"
        proof
          assume "bm_id b' = bm_id b"
          with Cons.prems(6) b'(1) bin have "b' = b" by (auto simp: distinct_map inj_on_def)
          with b'(2) url have same: "tab_url t' = tab_url t" by simp
          have "\<not> excluded (tab_url t')" using same False by simp
          from fresh_url [OF t' this] same show False by simp
        qed
        ultimately show "bm_id b' \<notin> insert sid seen" using sid by simp
      qed
      from Cons.IH [OF rest L1 len Ps Cons.prems(5,6) fresh d u] se sid
      obtain P' where
        "bookmarks s' f = Some ((P @ [?b']) @ P' @ filter (\<lambda>c. bm_id c \<notin> seen') bs)"
        "map bm_key P' = map tab_key (filter (\<lambda>t. \<not> excluded (tab_url t)) ts)"
        "\<forall>c\<in>set ((P @ [?b']) @ P'). bm_id c \<in> seen'"
        by blast
      moreover have "bm_key ?b' = tab_key t" using url by (simp add: bm_key_def tab_key_def)
      ultimately show ?thesis using False
        by (intro exI [of _ "?b' # P'"]) simp
    qed
  qed
qed


definition stale :: state where
  "stale = demo\<lparr>windows := [1 \<mapsto> [page 1 ''https://c.example/'', page 2 ''https://b.example/'',
        page 3 ''https://d.example/'', page 4 ''https://a.example/'']],
     bookmarks := [10 \<mapsto> [entry 5 ''https://a.example/'', entry 6 ''https://b.example/'',
        entry 7 ''https://c.example/'', entry 8 ''https://d.example/'']]\<rparr>"



text \<open>
  Lines 251-254 compare the index of the tab with the index its entry had when the
  snapshot was taken, not with the index the entry has by then. Four tabs
  \<open>c, b, d, a\<close> over a folder \<open>a, b, c, d\<close>: the entry of \<open>b\<close> has snapshot index \<open>1\<close>,
  the index of its tab, and is left where it is although \<open>c\<close> was put in front of it;
  the folder ends as \<open>c, d, b, a\<close>.
\<close>

lemma stale_index_leaves_entry_behind:
  "fst (syncTabsToBookmarks 1 stale) = Inr ()
   \<and> map bm_url (the (bookmarks (fst (snd (syncTabsToBookmarks 1 stale))) 10))
       = [Some ''https://c.example/'', Some ''https://d.example/'', Some ''https://b.example/'',
          Some ''https://a.example/'']
   \<and> map (\<lambda>t. Some (tab_url t)) (filter (\<lambda>t. \<not> excluded (tab_url t)) (the (windows stale 1)))
       = [Some ''https://c.example/'', Some ''https://b.example/'', Some ''https://d.example/'',
          Some ''https://a.example/'']"
  by (simp add: stale_def example_defs model_defs)


lemma tabsToBookmarks_ordered:
  assumes m: "map_of (windowMappings s) w = Some m"
    and idle: "\<not> isSyncing s"
    and run: "syncTabsToBookmarks w s = (Inr (), s', d)"
    and bs: "bookmarks s (folderId m) = Some bs"
    and ts: "windows s w = Some ts"
    and dist: "distinct (map bm_id bs)"
    and fresh: "\<forall>b\<in>set bs. bm_id b < nextId s"
    and urls: "distinct (map tab_url (filter (\<lambda>t. \<not> excluded (tab_url t)) ts))"
    and se: "settled (bookmarksByUrl (enumerate 0 bs)) bs ts 0 {}"
  shows "\<exists>cs. bookmarks s' (folderId m) = Some cs
     \<and> map bm_key cs = map tab_key (filter (\<lambda>t. \<not> excluded (tab_url t)) ts)"
proof -
  let ?f = "folderId m"
  let ?byUrl = "bookmarksByUrl (enumerate 0 bs)"
  obtain s1 s2 s3 seen pinned where
    s1: "bookmarks s1 ?f = Some bs" "nextId s1 = nextId s"
    and l: "tabLoop ?f ?byUrl ts 0 {} {} s1 = (Inr (seen, pinned), s2)"
    and ru: "removeUnseen ?f seen (enumerate 0 bs) s2 = (Inr (), s3)"
    and fin: "bookmarks s' = bookmarks s3"
    by (rule tabsToBookmarks_completed [OF m idle run bs ts])
  have L0: "bookmarks s1 ?f = Some ([] @ filter (\<lambda>c. bm_id c \<notin> {}) bs)"
    using s1(1) by simp
  have fresh1: "\<forall>b\<in>set bs. bm_id b < nextId s1" using fresh s1(2) by simp
  from tabLoop_ordered [OF l L0 _ _ refl dist fresh1 urls _ se]
  obtain P' where
    L: "bookmarks s2 ?f = Some (P' @ filter (\<lambda>c. bm_id c \<notin> seen) bs)"
    and keys: "map bm_key P' = map tab_key (filter (\<lambda>t. \<not> excluded (tab_url t)) ts)"
    and P': "\<forall>c\<in>set P'. bm_id c \<in> seen"
    by auto
  have ids: "bm_id ` snd ` set (enumerate 0 bs) = bm_id ` set bs"
    by (metis list.set_map map_snd_enumerate)
  have keep: "filter (\<lambda>c. bm_id c \<notin> bm_id ` set bs \<or> bm_id c \<in> seen) P' = P'"
    using P' by (simp add: filter_id_conv)
  have drop: "filter (\<lambda>c. bm_id c \<notin> bm_id ` set bs \<or> bm_id c \<in> seen)
      (filter (\<lambda>c. bm_id c \<notin> seen) bs) = []"
    by (auto simp: filter_empty_conv)
  from removeUnseen_Inr [OF ru L] fin ids keep drop
  have "bookmarks s' ?f = Some P'" by simp
  with keys show ?thesis by blast
qed

section \<open>When the order of the children is the order of the tabs\<close>

text \<open>
  A pass handles one item after the other; for item number \<open>k\<close> it looks up a
  counterpart in the snapshot of the other side and finds none, or finds the one with
  id \<open>x\<close> at snapshot index \<open>i\<close>. \<open>ids\<close> are the ids of the snapshot in its order.
  \<open>aligned\<close> asks one thing of these lookups: whenever the counterpart of an item stands
  at the item's own number already (\<open>i = k\<close>) and the counterpart of the next item does
  not, or there is none, the snapshot's first \<open>k\<close> members, \<open>k\<close> the number of that next
  item, are counterparts of the items up to it. \<open>seen\<close> are the counterparts found so
  far, \<open>stayed\<close> tells that the item before had \<open>i = k\<close>.
\<close>

fun aligned :: "nat list \<Rightarrow> (nat \<times> nat) option list \<Rightarrow> nat \<Rightarrow> nat set \<Rightarrow> bool \<Rightarrow> bool" where
  "aligned ids [] k seen stayed = True"
| "aligned ids (None # ms) k seen stayed =
     ((stayed \<longrightarrow> set (take k ids) \<subseteq> seen) \<and> aligned ids ms (Suc k) seen False)"
| "aligned ids (Some (i, x) # ms) k seen stayed =
     (if i = k then aligned ids ms (Suc k) (insert x seen) True
      else (stayed \<longrightarrow> set (take k ids) \<subseteq> insert x seen)
           \<and> aligned ids ms (Suc k) (insert x seen) False)"
















text \<open>The hypothesis on two small inputs where the pass gets the order right, and on the
  one where it does not.\<close>

lemma aligned_examples:
  "aligned [5, 6, 7] [Some (0, 5), None, Some (2, 7)] 0 {} False"
  "aligned [5, 6, 7] [Some (2, 7), Some (1, 6), Some (0, 5)] 0 {} False"
  "\<not> aligned [5, 6, 7, 8] [Some (2, 7), Some (1, 6), Some (3, 8), Some (0, 5)] 0 {} False"
  by simp_all


section \<open>Opening a folder as a window\<close>

text \<open>What neither a tab operation nor a write to storage changes.\<close>

definition surroundings ::
  "state \<Rightarrow> (nat \<times> mapping) list \<times> (nat \<rightharpoonup> string set) \<times> bool \<times> nat list
     \<times> (nat \<rightharpoonup> bookmark list) \<times> (string \<Rightarrow> string) \<times> string" where
  "surroundings s =
     (windowMappings s, pinnedTabsByFolder s, isSyncing s, pendingSyncs s, bookmarks s,
      pageTitle s, homeUrl s)"

lemma surroundings_tabs:
  "preserves surroundings (tabsQuery w)"
  "preserves surroundings (tabsCreate w u p io)"
  "preserves surroundings (tabsRemove w b)"
  "preserves surroundings windowsCreate"
  "preserves surroundings saveWindowMappings"
  "preserves surroundings (bookmarksGetSubTree f)"
  unfolding browser_defs
  by (rule preserves_api; auto simp: Let_def surroundings_def split: option.splits if_splits)+

lemma surroundings_updateFolderLastUsed: "preserves surroundings (updateFolderLastUsed f)"
  unfolding updateFolderLastUsed_def
  by (intro preserves_bind preserves_modify preserves_api) (auto simp: surroundings_def)

text \<open>The tabs \<^verbatim>\<open>createTabs\<close> makes, with the ids the browser hands out.\<close>

fun new_tabs :: "(string \<Rightarrow> string) \<Rightarrow> string set \<Rightarrow> nat \<Rightarrow> string list \<Rightarrow> tab list" where
  "new_tabs title p n [] = []"
| "new_tabs title p n (u # us) =
     \<lparr>tab_id = n, tab_url = u, tab_title = title u, tab_pinned = (u \<in> p)\<rparr>
       # new_tabs title p (Suc n) us"

lemma new_tabs_urls: "map tab_url (new_tabs title p n us) = us"
  by (induction us arbitrary: n) auto

lemma new_tabs_ids: "t \<in> set (new_tabs title p n us) \<Longrightarrow> n \<le> tab_id t"
  by (induction us arbitrary: n) (auto dest: Suc_leD)

lemma new_tabs_pinned: "t \<in> set (new_tabs title p n us) \<Longrightarrow> tab_pinned t = (tab_url t \<in> p)"
  by (induction us arbitrary: n) auto

lemma pinned_first_absorb: "pinned_first (pinned_first xs @ ys) = pinned_first (xs @ ys)"
proof -
  have "filter tab_pinned (filter (\<lambda>t. \<not> tab_pinned t) xs) = []"
    and "filter (\<lambda>t. \<not> tab_pinned t) (filter tab_pinned xs) = []"
    by (auto simp: filter_empty_conv)
  then show ?thesis
    by (simp add: pinned_first_def)
qed

lemma tabsCreate_Inr:
  assumes "tabsCreate w url pinned index s = (Inr t, s')" and "windows s w = Some ts"
  shows "t = \<lparr>tab_id = nextId s, tab_url = url, tab_title = pageTitle s url, tab_pinned = pinned\<rparr>
    \<and> windows s' w = Some (pinned_first
         (case index of None \<Rightarrow> ts @ [t] | Some i \<Rightarrow> insert_at i t ts))
    \<and> nextId s' = Suc (nextId s)"
  using api_Inr [OF assms(1) [unfolded tabsCreate_def]] assms(2)
  by (auto simp: Let_def split: option.splits)

lemma tabsRemove_Inr:
  assumes "tabsRemove w i s = (Inr x, s')" and "windows s w = Some ts"
  shows "windows s' w = Some (filter (\<lambda>c. tab_id c \<noteq> i) ts) \<and> nextId s' = nextId s"
  using api_Inr [OF assms(1) [unfolded tabsRemove_def]] assms(2)
  by (auto split: option.splits if_splits)

lemma createTabs_Inr:
  "createTabs w p us s = (Inr x, s') \<Longrightarrow> windows s w = Some T \<Longrightarrow>
     windows s' w = Some (if us = [] then T
                          else pinned_first (T @ new_tabs (pageTitle s) p (nextId s) us))
     \<and> nextId s' = nextId s + length us"
proof (induction us arbitrary: s T)
  case Nil
  then show ?case by simp
next
  case (Cons u us)
  from Cons.prems(1) obtain t s1 where
    c: "tabsCreate w u (u \<in> p) None s = (Inr t, s1)"
    and rest: "createTabs w p us s1 = (Inr x, s')"
    by (auto split: prod.splits sum.splits)
  let ?t = "\<lparr>tab_id = nextId s, tab_url = u, tab_title = pageTitle s u, tab_pinned = (u \<in> p)\<rparr>"
  from tabsCreate_Inr [OF c Cons.prems(2)] have
    T1: "windows s1 w = Some (pinned_first (T @ [?t]))" and n1: "nextId s1 = Suc (nextId s)"
    by simp_all
  from preservesD [OF surroundings_tabs(2) c] have title: "pageTitle s1 = pageTitle s"
    by (simp add: surroundings_def)
  from Cons.IH [OF rest T1] n1 title show ?case
    by (simp add: pinned_first_absorb)
qed

lemma createTabs_surroundings: "preserves surroundings (createTabs w p us)"
  by (rule createTabs_preserves) (rule surroundings_tabs)

lemma windowsCreate_Inr:
  assumes "windowsCreate s = (Inr w, s')"
  shows "w = nextId s
    \<and> windows s' = (windows s)(nextId s \<mapsto>
          [\<lparr>tab_id = Suc (nextId s), tab_url = homeUrl s, tab_title = pageTitle s (homeUrl s),
            tab_pinned = False\<rparr>])
    \<and> nextId s' = Suc (Suc (nextId s))"
  using api_Inr [OF assms [unfolded windowsCreate_def]]
  by (auto simp: Let_def)

text \<open>What stays as it is while the mapping is recorded and stored.\<close>

definition browser_view ::
  "state \<Rightarrow> (nat \<rightharpoonup> string set) \<times> bool \<times> (nat \<rightharpoonup> bookmark list) \<times> (nat \<rightharpoonup> tab list)
     \<times> nat \<times> (string \<Rightarrow> string) \<times> string" where
  "browser_view s =
     (pinnedTabsByFolder s, isSyncing s, bookmarks s, windows s, nextId s, pageTitle s, homeUrl s)"

lemma browser_view_steps:
  "preserves browser_view (bookmarksGetSubTree f)"
  "preserves browser_view (tabsQuery w)"
  "preserves browser_view saveWindowMappings"
  unfolding browser_defs
  by (rule preserves_api; auto simp: Let_def browser_view_def split: option.splits if_splits)+

lemma browser_view_updateFolderLastUsed: "preserves browser_view (updateFolderLastUsed f)"
  unfolding updateFolderLastUsed_def
  by (intro preserves_bind preserves_modify preserves_api) (auto simp: browser_view_def)

lemma browser_view_setMapping: "preserves browser_view (setMapping w f title)"
  unfolding setMapping_def
  by (intro preserves_modify) (simp add: browser_view_def)

lemma mappings_steps:
  "preserves windowMappings saveWindowMappings"
  "preserves windowMappings (tabsRemove w i)"
  "preserves windowMappings (createTabs w p us)"
  "preserves windowMappings (updateFolderLastUsed f)"
proof -
  have sur: "preserves windowMappings m" if "preserves surroundings m" for m :: "'a io"
    using that by (auto simp: preserves_def surroundings_def)
  show "preserves windowMappings saveWindowMappings"
    by (rule sur) (rule surroundings_tabs)
  show "preserves windowMappings (tabsRemove w i)"
    by (rule sur) (rule surroundings_tabs)
  show "preserves windowMappings (createTabs w p us)"
    by (rule sur) (rule createTabs_surroundings)
  show "preserves windowMappings (updateFolderLastUsed f)"
    by (rule sur) (rule surroundings_updateFolderLastUsed)
qed

lemma get_Inr: "get g s = (Inr x, s') \<Longrightarrow> x = g s \<and> s' = s"
  by (auto simp: get_def)

lemma ret_Inr: "ret y s = (Inr x, s') \<Longrightarrow> x = y \<and> s' = s"
  by (auto simp: ret_def)

text \<open>The state \<^verbatim>\<open>openFolderAsNewWindow\<close> leaves when it returns.\<close>

lemma openFolder_Inr:
  assumes run: "openFolderAsNewWindow f title s = (Inr w, s')"
    and bs: "bookmarks s f = Some bs"
  shows "w = nextId s
    \<and> map_of (windowMappings s') w = Some \<lparr>folderId = f, folderTitle = title\<rparr>
    \<and> bookmarks s' = bookmarks s \<and> isSyncing s' = isSyncing s
    \<and> nextId s \<le> nextId s'
    \<and> windows s' w = Some
         (let us = urlBookmarks (enumerate 0 bs);
              blank = \<lparr>tab_id = Suc (nextId s), tab_url = homeUrl s,
                       tab_title = pageTitle s (homeUrl s), tab_pinned = False\<rparr>
          in if us = [] then [blank]
             else filter (\<lambda>c. tab_id c \<noteq> Suc (nextId s))
                    (pinned_first (blank # new_tabs (pageTitle s)
                       (case pinnedTabsByFolder s f of None \<Rightarrow> {} | Some p \<Rightarrow> p)
                       (Suc (Suc (nextId s))) us)))"
proof -
  let ?us = "urlBookmarks (enumerate 0 bs)"
  let ?blank = "\<lparr>tab_id = Suc (nextId s), tab_url = homeUrl s,
                       tab_title = pageTitle s (homeUrl s), tab_pinned = False\<rparr>"
  let ?p = "case pinnedTabsByFolder s f of None \<Rightarrow> {} | Some p \<Rightarrow> p"
  let ?m = "\<lparr>folderId = f, folderTitle = title\<rparr>"
  from run [unfolded openFolderAsNewWindow_def] obtain children sa where
    g: "bookmarksGetSubTree f s = (Inr children, sa)"
    and rest: "(if urlBookmarks children = [] then
         bind windowsCreate (\<lambda>newWindow.
         bind (setMapping newWindow f title) (\<lambda>_.
         bind saveWindowMappings (\<lambda>_.
         bind (updateFolderLastUsed f) (\<lambda>_. ret newWindow))))
       else
         bind (get (\<lambda>s. case pinnedTabsByFolder s f of None \<Rightarrow> {} | Some p \<Rightarrow> p)) (\<lambda>pinnedUrls.
         bind windowsCreate (\<lambda>newWindow.
         bind (tabsQuery newWindow) (\<lambda>initialTabs.
         bind (setMapping newWindow f title) (\<lambda>_.
         bind saveWindowMappings (\<lambda>_.
         bind (updateFolderLastUsed f) (\<lambda>_.
         bind (createTabs newWindow pinnedUrls (urlBookmarks children)) (\<lambda>_.
         bind (case initialTabs of
                 [] \<Rightarrow> ret ()
               | (i, blank) # _ \<Rightarrow>
                   if tab_id blank \<noteq> 0 then tabsRemove newWindow (tab_id blank) else ret ())
           (\<lambda>_. ret newWindow))))))))) sa = (Inr w, s')"
    by (blast dest: bind_Inr)
  from bookmarksGetSubTree_Inr [OF g] bs have children: "children = enumerate 0 bs" by auto
  from preservesD [OF browser_view_steps(1) g] have va: "browser_view sa = browser_view s" .
  show ?thesis
  proof (cases "?us = []")
    case True
    with rest children obtain sb sc sd se where
      c: "windowsCreate sa = (Inr w, sb)"
      and sm: "setMapping w f title sb = (Inr (), sc)"
      and sv: "saveWindowMappings sc = (Inr (), sd)"
      and lu: "updateFolderLastUsed f sd = (Inr (), s')"
      by (auto dest!: bind_Inr ret_Inr)
    note wc = windowsCreate_Inr [OF c]
    from preservesD [OF browser_view_setMapping sm] preservesD [OF browser_view_steps(3) sv]
      preservesD [OF browser_view_updateFolderLastUsed lu]
    have v: "browser_view s' = browser_view sb" by simp
    from sm have "windowMappings sc = AList.update w ?m (windowMappings sb)"
      by (auto simp: setMapping_def modify_def)
    with preservesD [OF mappings_steps(1) sv] preservesD [OF mappings_steps(4) lu]
    have map: "map_of (windowMappings s') w = Some ?m"
      by (simp add: update_conv')
    from preservesD [OF surroundings_tabs(4) c] have "bookmarks sb = bookmarks sa"
      "isSyncing sb = isSyncing sa"
      by (simp_all add: surroundings_def)
    with v va wc map True show ?thesis
      by (simp add: browser_view_def Let_def)
  next
    case False
    with rest children obtain sb initialTabs sc sd se sf sg where
      c: "windowsCreate sa = (Inr w, sb)"
      and q: "tabsQuery w sb = (Inr initialTabs, sc)"
      and sm: "setMapping w f title sc = (Inr (), sd)"
      and sv: "saveWindowMappings sd = (Inr (), se)"
      and lu: "updateFolderLastUsed f se = (Inr (), sf)"
      and ct: "createTabs w (case pinnedTabsByFolder sa f of None \<Rightarrow> {} | Some p \<Rightarrow> p) ?us sf
          = (Inr (), sg)"
      and rm: "(case initialTabs of
                 [] \<Rightarrow> ret ()
               | (i, blank) # _ \<Rightarrow>
                   if tab_id blank \<noteq> 0 then tabsRemove w (tab_id blank) else ret ()) sg
          = (Inr (), s')"
      by (auto dest!: bind_Inr ret_Inr get_Inr)
    note wc = windowsCreate_Inr [OF c]
    from va have a: "pinnedTabsByFolder sa = pinnedTabsByFolder s" "nextId sa = nextId s"
      "pageTitle sa = pageTitle s" "homeUrl sa = homeUrl s" "bookmarks sa = bookmarks s"
      "isSyncing sa = isSyncing s"
      by (simp_all add: browser_view_def)
    from wc a have wb: "windows sb w = Some [?blank]" and nb: "nextId sb = Suc (Suc (nextId s))"
      and w: "w = nextId s"
      by simp_all
    from tabsQuery_Inr [OF q] wb have it: "initialTabs = [(0, ?blank)]"
      by (simp add: enumerate_simps)
    from preservesD [OF browser_view_steps(2) q] preservesD [OF browser_view_setMapping sm]
      preservesD [OF browser_view_steps(3) sv] preservesD [OF browser_view_updateFolderLastUsed lu]
    have vf: "browser_view sf = browser_view sb" by simp
    from preservesD [OF surroundings_tabs(4) c] a have
      b: "bookmarks sb = bookmarks s" "isSyncing sb = isSyncing s" "pageTitle sb = pageTitle s"
      by (simp_all add: surroundings_def)
    from vf wb nb b have f: "windows sf w = Some [?blank]" "nextId sf = Suc (Suc (nextId s))"
      "pageTitle sf = pageTitle s" "bookmarks sf = bookmarks s" "isSyncing sf = isSyncing s"
      by (simp_all add: browser_view_def)
    from createTabs_Inr [OF ct f(1)] False f(2,3) a(1)
    have wg: "windows sg w = Some (pinned_first (?blank # new_tabs (pageTitle s) ?p
        (Suc (Suc (nextId s))) ?us))"
      and ng: "nextId sg = Suc (Suc (nextId s)) + length ?us"
      by simp_all
    from rm it have rm': "tabsRemove w (Suc (nextId s)) sg = (Inr (), s')" by simp
    from tabsRemove_Inr [OF rm' wg] ng
    have w': "windows s' w = Some (filter (\<lambda>c. tab_id c \<noteq> Suc (nextId s))
        (pinned_first (?blank # new_tabs (pageTitle s) ?p (Suc (Suc (nextId s))) ?us)))"
      and n': "nextId s \<le> nextId s'"
      by simp_all
    from preservesD [OF createTabs_surroundings ct] preservesD [OF surroundings_tabs(3) rm'] f
    have o: "bookmarks s' = bookmarks s" "isSyncing s' = isSyncing s"
      by (simp_all add: surroundings_def)
    from sm have "windowMappings sd = AList.update w ?m (windowMappings sc)"
      by (auto simp: setMapping_def modify_def)
    with preservesD [OF mappings_steps(1) sv] preservesD [OF mappings_steps(4) lu]
      preservesD [OF mappings_steps(3) ct] preservesD [OF mappings_steps(2) rm']
    have map: "map_of (windowMappings s') w = Some ?m"
      by (simp add: update_conv')
    from w w' n' o map False show ?thesis
      by (simp add: Let_def)
  qed
qed

section \<open>Opening a folder and syncing back\<close>

text \<open>No pinned URL after an unpinned one.\<close>

fun pins_first :: "string set \<Rightarrow> string list \<Rightarrow> bool" where
  "pins_first p [] = True"
| "pins_first p (u # us) = (if u \<in> p then pins_first p us else (\<forall>v\<in>set us. v \<notin> p))"

lemma new_tabs_unpinned:
  "\<forall>v\<in>set us. v \<notin> p \<Longrightarrow>
     filter tab_pinned (new_tabs title p n us) = []
     \<and> filter (\<lambda>t. \<not> tab_pinned t) (new_tabs title p n us) = new_tabs title p n us"
  by (induction us arbitrary: n) auto

lemma pinned_first_new_tabs:
  "pins_first p us \<Longrightarrow> pinned_first (new_tabs title p n us) = new_tabs title p n us"
proof (induction us arbitrary: n)
  case Nil
  show ?case by (simp add: pinned_first_def)
next
  case (Cons u us)
  show ?case
  proof (cases "u \<in> p")
    case True
    with Cons.prems have "pins_first p us" by simp
    from Cons.IH [OF this, of "Suc n"] True show ?thesis
      by (simp add: pinned_first_def)
  next
    case False
    with Cons.prems have "\<forall>v\<in>set us. v \<notin> p" by simp
    from new_tabs_unpinned [OF this, of title "Suc n"] False show ?thesis
      by (simp add: pinned_first_def)
  qed
qed

lemma blank_removed:
  assumes "\<forall>t\<in>set ts. tab_id t \<noteq> i" and "\<not> tab_pinned blank" and "tab_id blank = i"
  shows "filter (\<lambda>c. tab_id c \<noteq> i) (pinned_first (blank # ts)) = pinned_first ts"
proof -
  have "filter (\<lambda>c. tab_id c \<noteq> i) (filter P ts) = filter P ts" for P
    using assms(1) by (induction ts) auto
  with assms(2,3) show ?thesis
    by (simp add: pinned_first_def)
qed

lemma map_enumerate_snd: "map (\<lambda>(i, b). g b) (enumerate n bs) = map g bs"
  by (induction bs arbitrary: n) auto

lemma distinct_map_Some: "distinct (map Some xs) = distinct xs"
  by (simp add: distinct_map)

lemma urlBookmarks_all:
  assumes "\<forall>b\<in>set bs. \<exists>u. bm_url b = Some u \<and> \<not> excluded u"
  shows "urlBookmarks (enumerate 0 bs) = map (\<lambda>b. the (bm_url b)) bs"
proof -
  have "filter (\<lambda>(i, b). case bm_url b of None \<Rightarrow> False
      | Some url \<Rightarrow> url \<noteq> [] \<and> \<not> startsWith url ''about:'' \<and> \<not> startsWith url ''moz-extension:'')
        (enumerate 0 bs) = enumerate 0 bs"
  proof -
    have "case x of (i, b) \<Rightarrow> (case bm_url b of None \<Rightarrow> False
        | Some url \<Rightarrow> url \<noteq> [] \<and> \<not> startsWith url ''about:'' \<and> \<not> startsWith url ''moz-extension:'')"
      if "x \<in> set (enumerate 0 bs)" for x
    proof -
      obtain i b where x: "x = (i, b)" by (cases x)
      with that have "b \<in> set bs" by (auto simp: in_set_enumerate_eq)
      with assms obtain u where "bm_url b = Some u" "\<not> excluded u" by blast
      with x show ?thesis by (simp add: excluded_def)
    qed
    then show ?thesis by (simp add: filter_id_conv)
  qed
  then show ?thesis
    by (simp add: urlBookmarks_def map_enumerate_snd)
qed

lemma bookmarksByUrl_nth:
  assumes dist: "distinct (map bm_url bs)" and k: "k < length bs"
    and url: "bm_url (bs ! k) = Some u" and u: "u \<noteq> []"
  shows "bookmarksByUrl (enumerate 0 bs) u = Some (k, bs ! k)"
proof (cases "bookmarksByUrl (enumerate 0 bs) u")
  case None
  have "(k, bs ! k) \<in> set (enumerate 0 bs)" using k by (simp add: in_set_enumerate_eq)
  from bookmarksByUrl_None [OF None u this] url show ?thesis by simp
next
  case (Some ib)
  obtain i b where ib: "ib = (i, b)" by (cases ib)
  from bookmarksByUrl_Some [of "enumerate 0 bs" u i b] Some ib
  have i: "i < length bs" "bs ! i = b" "bm_url b = Some u"
    by (auto simp: in_set_enumerate_eq)
  with url k have "map bm_url bs ! i = map bm_url bs ! k" by simp
  moreover have "i < length (map bm_url bs)" "k < length (map bm_url bs)" using i(1) k by simp_all
  ultimately have "i = k" using nth_eq_iff_index_eq [OF dist] by blast
  with Some ib i show ?thesis by simp
qed

lemma settled_suffix:
  assumes same: "map bm_url bs = map (\<lambda>t. Some (tab_url t)) ts"
    and good: "\<forall>t\<in>set ts. \<not> excluded (tab_url t)"
    and dist: "distinct (map tab_url ts)"
  shows "k \<le> length ts \<Longrightarrow>
    settled (bookmarksByUrl (enumerate 0 bs)) bs (drop k ts) k (bm_id ` set (take k bs))"
proof (induction "length ts - k" arbitrary: k)
  case 0
  then show ?case by simp
next
  case (Suc n)
  then have k: "k < length ts" by simp
  from same have len: "length bs = length ts" by (metis length_map)
  from same k len have url: "bm_url (bs ! k) = Some (tab_url (ts ! k))"
    by (metis nth_map)
  from good k have g: "\<not> excluded (tab_url (ts ! k))" by simp
  then have ne: "tab_url (ts ! k) \<noteq> []" by (simp add: excluded_def)
  have "distinct (map (\<lambda>t. Some (tab_url t)) ts)"
    using dist by (simp add: distinct_map inj_on_def)
  with same have db: "distinct (map bm_url bs)" by simp
  from bookmarksByUrl_nth [OF db _ url ne] k len
  have look: "bookmarksByUrl (enumerate 0 bs) (tab_url (ts ! k)) = Some (k, bs ! k)" by simp
  have step: "insert (bm_id (bs ! k)) (bm_id ` set (take k bs)) = bm_id ` set (take (Suc k) bs)"
    using k len by (simp add: take_Suc_conv_app_nth)
  from Suc.hyps(2) have "n = length ts - Suc k" by simp
  from Suc.hyps(1) [OF this] k
  have "settled (bookmarksByUrl (enumerate 0 bs)) bs (drop (Suc k) ts) (Suc k)
      (bm_id ` set (take (Suc k) bs))"
    by simp
  with look g step show ?case
    by (simp add: Cons_nth_drop_Suc [OF k, symmetric])
qed

lemma settled_same:
  assumes "map bm_url bs = map (\<lambda>t. Some (tab_url t)) ts"
    and "\<forall>t\<in>set ts. \<not> excluded (tab_url t)"
    and "distinct (map tab_url ts)"
  shows "settled (bookmarksByUrl (enumerate 0 bs)) bs ts 0 {}"
  using settled_suffix [OF assms, of 0] by simp

lemma settled_excluded:
  "\<forall>t\<in>set ts. excluded (tab_url t) \<Longrightarrow> settled byUrl bs ts k seen"
  by (induction ts) auto

text \<open>
  C9, amended. A folder whose children are entries with pairwise distinct URLs, none of
  them of an excluded scheme, with distinct ids below the id supply, and in which no
  URL of the folder's pinned set comes after a URL that is not in it: opening it as a
  window and then running a tab-to-bookmark pass on the new window, both to completion,
  leaves the folder with the same URL sequence. For an empty folder the browser's start
  page has to be one the pass skips.
\<close>

theorem open_then_sync_keeps_entries:
  assumes op: "openFolderAsNewWindow f title s = (Inr w, s1)"
    and run: "syncTabsToBookmarks w s1 = (Inr (), s2, d)"
    and idle: "\<not> isSyncing s"
    and bs: "bookmarks s f = Some bs"
    and entries: "\<forall>b\<in>set bs. \<exists>u. bm_url b = Some u \<and> \<not> excluded u"
    and urls: "distinct (map bm_url bs)"
    and ids: "distinct (map bm_id bs)"
    and fresh: "\<forall>b\<in>set bs. bm_id b < nextId s"
    and pins: "pins_first (case pinnedTabsByFolder s f of None \<Rightarrow> {} | Some p \<Rightarrow> p)
        (map (\<lambda>b. the (bm_url b)) bs)"
    and home: "bs = [] \<longrightarrow> excluded (homeUrl s)"
  shows "\<exists>cs. bookmarks s2 f = Some cs \<and> map bm_url cs = map bm_url bs"
proof -
  let ?us = "map (\<lambda>b. the (bm_url b)) bs"
  let ?p = "case pinnedTabsByFolder s f of None \<Rightarrow> {} | Some p \<Rightarrow> p"
  let ?blank = "\<lparr>tab_id = Suc (nextId s), tab_url = homeUrl s,
                       tab_title = pageTitle s (homeUrl s), tab_pinned = False\<rparr>"
  let ?news = "new_tabs (pageTitle s) ?p (Suc (Suc (nextId s))) ?us"
  let ?m = "\<lparr>folderId = f, folderTitle = title\<rparr>"
  let ?good = "filter (\<lambda>t. \<not> excluded (tab_url t))"
  note o = openFolder_Inr [OF op bs, unfolded urlBookmarks_all [OF entries] Let_def]
  from o have m: "map_of (windowMappings s1) w = Some ?m"
    and b1: "bookmarks s1 (folderId ?m) = Some bs"
    and idle1: "\<not> isSyncing s1"
    and fresh1: "\<forall>b\<in>set bs. bm_id b < nextId s1"
    using bs idle fresh by auto
  from o have ow: "windows s1 w = Some (if ?us = [] then [?blank]
      else filter (\<lambda>c. tab_id c \<noteq> Suc (nextId s)) (pinned_first (?blank # ?news)))"
    by blast
  have same_urls: "map bm_url bs = map (\<lambda>u. Some u) ?us"
    using entries by (auto simp: map_idI)
  obtain ts where ts: "windows s1 w = Some ts"
    and keys: "map (\<lambda>t. Some (tab_url t)) (?good ts) = map bm_url bs"
    and du: "distinct (map tab_url (?good ts))"
    and se: "settled (bookmarksByUrl (enumerate 0 bs)) bs ts 0 {}"
  proof (cases "bs = []")
    case True
    with ow have w: "windows s1 w = Some [?blank]" by simp
    from True home have ex: "excluded (tab_url ?blank)" by simp
    show ?thesis
      by (rule that [OF w]) (use True ex in \<open>simp_all add: settled_excluded\<close>)
  next
    case False
    have nb: "\<forall>t\<in>set ?news. tab_id t \<noteq> Suc (nextId s)"
      using new_tabs_ids [of _ "pageTitle s" ?p "Suc (Suc (nextId s))" ?us] by fastforce
    from False ow have "windows s1 w = Some (filter (\<lambda>c. tab_id c \<noteq> Suc (nextId s))
        (pinned_first (?blank # ?news)))"
      by simp
    with blank_removed [OF nb, of ?blank] pinned_first_new_tabs [OF pins]
    have w: "windows s1 w = Some ?news" by simp
    have nu: "map tab_url ?news = ?us" by (rule new_tabs_urls)
    have good: "\<forall>t\<in>set ?news. \<not> excluded (tab_url t)"
    proof
      fix t assume "t \<in> set ?news"
      then have "tab_url t \<in> set (map tab_url ?news)" by simp
      with nu have "tab_url t \<in> set ?us" by simp
      with entries show "\<not> excluded (tab_url t)" by auto
    qed
    then have all: "?good ?news = ?news" by (simp add: filter_id_conv)
    have k: "map bm_url bs = map (\<lambda>t. Some (tab_url t)) ?news"
    proof -
      have "map (\<lambda>t. Some (tab_url t)) ?news = map Some (map tab_url ?news)" by simp
      with nu same_urls show ?thesis by simp
    qed
    have d: "distinct (map tab_url ?news)"
    proof -
      from urls have "distinct (map Some ?us)" unfolding same_urls .
      then have "distinct ?us" by (rule distinct_map_Some [THEN iffD1])
      with nu show ?thesis by simp
    qed
    show ?thesis
      by (rule that [OF w]) (use all k d settled_same [OF k good d] in simp_all)
  qed
  from tabsToBookmarks_ordered [OF m idle1 run b1 ts ids fresh1 du se]
  obtain cs where cs: "bookmarks s2 f = Some cs" and ck: "map bm_key cs = map tab_key (?good ts)"
    by auto
  have "map bm_url cs = map fst (map bm_key cs)" by (simp add: bm_key_def)
  also have "\<dots> = map (\<lambda>t. Some (tab_url t)) (?good ts)"
    unfolding ck by (simp add: tab_key_def)
  finally show ?thesis using cs keys by simp
qed

definition saved :: state where
  "saved = demo\<lparr>bookmarks := [10 \<mapsto> [entry 5 ''https://a.example/'', entry 6 ''https://b.example/'',
        entry 7 ''https://c.example/'']],
     pinnedTabsByFolder := [10 \<mapsto> {''https://a.example/''}]\<rparr>"

definition pinned_later :: state where
  "pinned_later = demo\<lparr>bookmarks := [10 \<mapsto> [entry 5 ''https://a.example/'',
        entry 6 ''https://b.example/'']],
     pinnedTabsByFolder := [10 \<mapsto> {''https://b.example/''}]\<rparr>"

text \<open>
  C9, as stated, fails when a pinned URL stands behind an unpinned one: the folder is
  \<open>a, b\<close> with \<open>b\<close> pinned; the tab for \<open>b\<close> is created pinned, the browser puts
  it in front of the tab for \<open>a\<close>, and the pass reorders the folder to \<open>b, a\<close>.
\<close>

theorem open_then_sync_counterexample:
  "fst (openFolderAsNewWindow 10 ''Work'' pinned_later) = Inr 100
   \<and> map tab_url (the (windows (snd (openFolderAsNewWindow 10 ''Work'' pinned_later)) 100))
       = [''https://b.example/'', ''https://a.example/'']
   \<and> fst (syncTabsToBookmarks 100 (snd (openFolderAsNewWindow 10 ''Work'' pinned_later))) = Inr ()
   \<and> map bm_url (the (bookmarks (fst (snd (syncTabsToBookmarks 100
         (snd (openFolderAsNewWindow 10 ''Work'' pinned_later))))) 10))
       = [Some ''https://b.example/'', Some ''https://a.example/'']
   \<and> map bm_url (the (bookmarks pinned_later 10))
       = [Some ''https://a.example/'', Some ''https://b.example/'']"
  by (simp add: pinned_later_def example_defs model_defs)

theorem open_then_sync_keeps_entries_witness:
  "fst (openFolderAsNewWindow 10 ''Work'' saved) = Inr 100
   \<and> fst (syncTabsToBookmarks 100 (snd (openFolderAsNewWindow 10 ''Work'' saved))) = Inr ()
   \<and> map bm_url (the (bookmarks (fst (snd (syncTabsToBookmarks 100
         (snd (openFolderAsNewWindow 10 ''Work'' saved))))) 10))
       = [Some ''https://a.example/'', Some ''https://b.example/'', Some ''https://c.example/'']"
proof -
  let ?o = "openFolderAsNewWindow 10 ''Work'' saved"
  let ?r = "syncTabsToBookmarks 100 (snd ?o)"
  let ?bs = "[entry 5 ''https://a.example/'', entry 6 ''https://b.example/'',
        entry 7 ''https://c.example/'']"
  have o: "fst ?o = Inr 100"
    by (simp add: saved_def example_defs model_defs)
  then have op: "?o = (Inr 100, snd ?o)" by (cases ?o) simp
  have r: "fst ?r = Inr ()"
    by (simp add: saved_def example_defs model_defs)
  then have run: "?r = (Inr (), fst (snd ?r), snd (snd ?r))" by (cases ?r) simp
  have idle: "\<not> isSyncing saved" and bs: "bookmarks saved 10 = Some ?bs"
    by (simp_all add: saved_def example_defs)
  have entries: "\<forall>b\<in>set ?bs. \<exists>u. bm_url b = Some u \<and> \<not> excluded u"
    and urls: "distinct (map bm_url ?bs)"
    and ids: "distinct (map bm_id ?bs)"
    and fresh: "\<forall>b\<in>set ?bs. bm_id b < nextId saved"
    and pins: "pins_first (case pinnedTabsByFolder saved 10 of None \<Rightarrow> {} | Some p \<Rightarrow> p)
        (map (\<lambda>b. the (bm_url b)) ?bs)"
    and home: "?bs = [] \<longrightarrow> excluded (homeUrl saved)"
    by (simp_all add: saved_def example_defs excluded_def startsWith_def)
  from open_then_sync_keeps_entries [OF op run idle bs entries urls ids fresh pins home] o r
  show ?thesis
    by (auto simp: entry_def)
qed


section \<open>What a bookmark-to-tab pass leaves in the window\<close>





























definition displaced :: state where
  "displaced = demo\<lparr>windows := [1 \<mapsto> [page 1 ''https://x.example/'', page 2 ''https://p.example/'',
        page 3 ''https://y.example/'', page 4 ''https://q.example/'']],
     bookmarks := [10 \<mapsto> [entry 5 ''https://n.example/'', entry 6 ''https://p.example/'',
        entry 7 ''https://q.example/'']]\<rparr>"



section \<open>When the order of the tabs is the order of the folder\<close>

text \<open>The lookups of a bookmark-to-tab pass: one for each URL of the folder.\<close>

definition tabs_found :: "(string \<rightharpoonup> nat \<times> tab) \<Rightarrow> string list \<Rightarrow> (nat \<times> nat) option list"
  where
  "tabs_found byUrl us = map (\<lambda>u. map_option (\<lambda>(i, t). (i, tab_id t)) (byUrl u)) us"


















lemma pins_first_unpinned: "\<forall>v\<in>set us. v \<notin> p \<Longrightarrow> pins_first p us"
  by (cases us) simp_all






definition rearranged :: state where
  "rearranged = demo\<lparr>windows := [1 \<mapsto> [(page 1 ''https://a.example/'')\<lparr>tab_pinned := True\<rparr>,
        page 2 ''https://x.example/'', page 3 ''https://b.example/'', page 4 ''about:config'',
        page 5 ''https://c.example/'']],
     bookmarks := [10 \<mapsto> [entry 5 ''https://a.example/'', entry 6 ''https://n.example/'',
        entry 7 ''https://c.example/'', entry 8 ''https://b.example/'']],
     pinnedTabsByFolder := [10 \<mapsto> {''https://a.example/''}],
     stored_pinned := [10 \<mapsto> {''https://a.example/''}]\<rparr>"

text \<open>In \<open>rearranged\<close> the one pinned tab is the tab of the one pinned entry.\<close>

lemma rearranged_pins:
  "\<forall>t\<in>set (the (windows rearranged 1)). tab_pinned t
      = (tab_url t \<in> {''https://a.example/''}
         \<and> Some (tab_url t) \<in> bm_url ` set (the (bookmarks rearranged 10))
         \<and> (\<exists>i. tabsByUrl (enumerate 0 (the (windows rearranged 1))) (tab_url t) = Some (i, t)))"
  by (simp add: rearranged_def example_defs model_defs)


text \<open>
  Line 358 compares the index of the entry with the index its tab had when the
  snapshot was taken, not with the index the tab has by then. A folder \<open>n, p, q\<close> over
  the tabs \<open>x, p, y, q\<close>, nothing pinned: the tab for \<open>n\<close> is created in front, the tab of
  \<open>p\<close> has snapshot index \<open>1\<close>, the index of its entry, and is left where it now is, at
  \<open>2\<close>; the tab of \<open>q\<close> is moved to \<open>2\<close>, in front of it, and the window ends as
  \<open>n, q, p\<close>.
\<close>

lemma stale_index_leaves_tab_behind:
  "fst (syncBookmarksToTabs 10 displaced) = Inr ()
   \<and> map tab_url (the (windows (fst (snd (syncBookmarksToTabs 10 displaced))) 1))
       = [''https://n.example/'', ''https://q.example/'', ''https://p.example/'']
   \<and> map bm_url (the (bookmarks displaced 10))
       = [Some ''https://n.example/'', Some ''https://p.example/'', Some ''https://q.example/'']
   \<and> \<not> aligned (map tab_id (the (windows displaced 1)))
        (tabs_found (tabsByUrl (enumerate 0 (the (windows displaced 1))))
           (map (\<lambda>b. the (bm_url b)) (the (bookmarks displaced 10)))) 0 {} False"
  by (simp add: displaced_def example_defs model_defs tabs_found_def)



end
